theory Spec2Isabelle
  imports Complex_Main
begin

unbundle bit_operations_syntax

section \<open>Machine integers, errors and the platform\<close>

text \<open>
  The allocator computes with \<open>size_t\<close> (64 bit, unsigned) and stores stack sizes, stack
  indices and tokens in \<open>uint16_t\<close> cells. Both are natural numbers here, with the
  wrap-around of every conversion and every shift written out. Pointers are natural
  numbers too, \<open>0\<close> being \<open>NULL\<close>.
\<close>

definition size_t :: "nat \<Rightarrow> nat" where
  "size_t x = x mod 2 ^ 64"

definition uint16_t :: "nat \<Rightarrow> nat" where
  "uint16_t x = x mod 2 ^ 16"

text \<open>
  \<open>Fatal\<close> is a call of the macro \<open>ERR\<close> (message, then \<open>abort\<close>); \<open>Assertion\<close> is an
  \<open>assert\<close> that does not hold; \<open>Undefined\<close> is behaviour the language leaves undefined
  (a null or dangling pointer dereferenced, an index outside the vector, a division by
  zero, a shift past the width of \<open>int\<close>); \<open>Diverges\<close> is a loop that never ends.
\<close>

datatype error = Fatal | Assertion | Undefined | Diverges

text \<open>
  The platform allocator is not part of the repository. \<open>_aligned_malloc(align, size)\<close>
  is an input of every operation that may call it: \<open>aligned_malloc pf align size\<close> is
  the pointer the platform returns for that request (\<open>0\<close> when it fails), and
  \<open>fresh_mem pf\<close> is what the memory behind the header of a new pool holds before the
  code writes to it, read as \<open>uint16_t\<close> cells counted from the start of the token
  stack. Every operation calls the platform allocator at most once.
\<close>

record platform =
  aligned_malloc :: "nat \<Rightarrow> nat \<Rightarrow> nat"
  fresh_mem :: "nat \<Rightarrow> nat"

definition TBMAN_ALIGN :: nat where
  "TBMAN_ALIGN = 256"

section \<open>Token manager\<close>

text \<open>
  \<open>struct token_manager_s\<close>. The header lies at the start of its pool, so a token manager
  is identified by the address of its pool. \<open>parent\<close> points to a block manager, which is
  identified by its position in the vector of the memory manager; \<open>None\<close> is \<open>NULL\<close>.
  \<open>token_stack\<close> is the flexible array member behind the header.
\<close>

record token_manager_s =
  tm_pool_size :: nat
  tm_block_size :: nat
  stack_size :: nat
  stack_index :: nat
  tm_aligned :: bool
  parent :: "nat option"
  parent_index :: nat
  token_stack :: "nat \<Rightarrow> nat"

text \<open>\<open>sizeof(token_manager_s)\<close> under the LP64 data model: 8 + 8 + 2 + 2 + 1 (+3) + 8 + 8.\<close>

definition sizeof_token_manager_s :: nat where
  "sizeof_token_manager_s = 40"

definition reserved_blocks :: "nat \<Rightarrow> nat \<Rightarrow> nat" where
  "reserved_blocks P B =
     (let reserved_size = sizeof_token_manager_s + 2 * (P div B)
      in reserved_size div B + (if reserved_size mod B > 0 then 1 else 0))"

text \<open>
  \<open>token_manager_s_create\<close>. The field \<open>stack_size\<close> is a \<open>uint16_t\<close>, the local variable
  of the same name a \<open>size_t\<close>: the loop runs to the field, the test inside compares
  with the local variable. Cells the loop does not reach keep what the fresh memory
  held. The result is the address of the new pool and the header written there.
\<close>

definition token_manager_s_create ::
    "nat \<Rightarrow> nat \<Rightarrow> bool \<Rightarrow> platform \<Rightarrow> error + (nat \<times> token_manager_s)" where
  "token_manager_s_create P B al pf =
     (if P AND (P - 1) \<noteq> 0 then Inl Fatal
      else if B = 0 then Inl Undefined
      else if P div B > 65536 then Inl Fatal
      else if P div B < reserved_blocks P B + 1 then Inl Fatal
      else let a = aligned_malloc pf (if al then P else TBMAN_ALIGN) P in
        if a = 0 then Inl Fatal
        else Inr (a,
          \<lparr> tm_pool_size = P,
            tm_block_size = B,
            stack_size = uint16_t (P div B),
            stack_index = 0,
            tm_aligned = (a AND (P - 1) = 0),
            parent = None,
            parent_index = 0,
            token_stack = (\<lambda>i. if i < uint16_t (P div B)
                                then (if i + reserved_blocks P B < P div B
                                      then uint16_t (i + reserved_blocks P B) else 0)
                                else fresh_mem pf i) \<rparr>))"

definition token_manager_s_is_full :: "token_manager_s \<Rightarrow> bool" where
  "token_manager_s_is_full tm = (token_stack tm (stack_index tm) = 0)"

definition token_manager_s_is_empty :: "token_manager_s \<Rightarrow> bool" where
  "token_manager_s_is_empty tm = (stack_index tm = 0)"

text \<open>\<open>token_manager_s_alloc\<close>, for the token manager at address \<open>a\<close>.\<close>

definition token_manager_s_alloc :: "nat \<Rightarrow> token_manager_s \<Rightarrow> error + (nat \<times> token_manager_s)" where
  "token_manager_s_alloc a tm =
     (if token_manager_s_is_full tm then Inl Assertion
      else let ret = a + token_stack tm (stack_index tm) * tm_block_size tm
           in if ret < a + sizeof_token_manager_s then Inl Assertion
              else Inr (ret, tm\<lparr>stack_index := uint16_t (stack_index tm + 1)\<rparr>))"

section \<open>Block manager and memory manager: the state\<close>

text \<open>
  \<open>struct block_manager_s\<close>. The vector \<open>data\<close> with its \<open>size\<close> is a list of pool
  addresses (\<open>size\<close> is its length; the capacity \<open>space\<close> is not modelled, and growing the
  vector is taken to succeed). \<open>sweep_hysteresis\<close> is a \<open>double\<close> in the source; the
  products the code forms with it are exact for the default \<open>0.125\<close> and every vector
  shorter than \<open>2^53\<close>, so a rational stands for it. The pointers \<open>parent\<close> and
  \<open>internal_btree\<close> refer to the one memory manager and are left implicit.
\<close>

record block_manager_s =
  bm_pool_size :: nat
  bm_block_size :: nat
  align :: bool
  bm_data :: "nat list"
  free_index :: nat
  sweep_hysteresis :: rat
  bm_aligned :: bool

text \<open>
  \<open>struct tbman_s\<close>, without its mutex. \<open>data\<close> holds the block managers by value.
  \<open>pools\<close> is the memory in which the token managers live: a store from pool addresses to
  headers; a pool that has been given back to the platform is no longer in it.
\<close>

record tbman_s =
  data :: "block_manager_s list"
  pool_size :: nat
  min_block_size :: nat
  max_block_size :: nat
  aligned :: bool
  block_size_array :: "nat list"
  internal_btree :: "nat set"
  external_btree :: "nat \<rightharpoonup> nat"
  pools :: "nat \<rightharpoonup> token_manager_s"

text \<open>
  Modelled from the spec: the ordered map of \<open>btree.h\<close>, whose code is not in the
  repository. The pool-address tree has set semantics with exact membership and the
  query "largest key \<open>\<le> q\<close>" (\<open>NULL\<close> when there is none); registering a key that is
  present and removing one that is absent fail, which the callers turn into \<open>ERR\<close>.
\<close>

definition btree_vd_s_largest_below_equal :: "nat set \<Rightarrow> nat \<Rightarrow> nat" where
  "btree_vd_s_largest_below_equal t q =
     (if {k \<in> t. k \<le> q} = {} then 0 else Max {k \<in> t. k \<le> q})"

definition block_manager_s_create :: "nat \<Rightarrow> nat \<Rightarrow> bool \<Rightarrow> block_manager_s" where
  "block_manager_s_create P B al =
     \<lparr> bm_pool_size = P, bm_block_size = B, align = al, bm_data = [], free_index = 0,
       sweep_hysteresis = 1 / 8, bm_aligned = True \<rparr>"

section \<open>Size-class ladder and construction\<close>

text \<open>
  \<open>tbman_s_init\<close>, lines 545 to 573. \<open>(1 << mask_bxp) - 1\<close> is computed in \<open>int\<close>: it is
  defined for a shift of at most 30.
\<close>

definition initial_size_mask :: "nat \<Rightarrow> nat option" where
  "initial_size_mask mask_bxp = (if mask_bxp < 31 then Some (2 ^ mask_bxp - 1) else None)"

partial_function (option) size_mask_loop :: "nat \<Rightarrow> nat \<Rightarrow> nat option" where
  "size_mask_loop min_B size_mask =
     (if size_mask < min_B \<or> size_t (2 * size_mask) AND min_B \<noteq> 0
      then size_mask_loop min_B (size_t (2 * size_mask))
      else Some size_mask)"

text \<open>
  The \<open>for\<close> loop; \<open>acc\<close> collects the block size of every block manager it creates, in
  order.
\<close>

partial_function (option) block_size_loop ::
    "nat \<Rightarrow> nat \<Rightarrow> nat \<Rightarrow> nat \<Rightarrow> nat list \<Rightarrow> nat list option" where
  "block_size_loop max_B block_size size_mask size_inc acc =
     (if block_size \<le> max_B
      then (if block_size > size_mask
            then block_size_loop max_B (size_t (block_size + size_t (2 * size_inc)))
                   (size_t (2 * size_mask)) (size_t (2 * size_inc)) (acc @ [block_size])
            else block_size_loop max_B (size_t (block_size + size_inc))
                   size_mask size_inc (acc @ [block_size]))
      else Some acc)"

definition block_size_ladder :: "nat \<Rightarrow> nat \<Rightarrow> nat \<Rightarrow> error + nat list" where
  "block_size_ladder min_B max_B stepping_method =
     (case initial_size_mask stepping_method of
        None \<Rightarrow> Inl Undefined
      | Some mask0 \<Rightarrow>
          (case size_mask_loop min_B mask0 of
             None \<Rightarrow> Inl Diverges
           | Some size_mask \<Rightarrow>
               (case block_size_loop max_B min_B size_mask min_B [] of
                  None \<Rightarrow> Inl Diverges
                | Some bs \<Rightarrow> Inr bs)))"

definition tbman_s_init :: "nat \<Rightarrow> nat \<Rightarrow> nat \<Rightarrow> nat \<Rightarrow> bool \<Rightarrow> error + tbman_s" where
  "tbman_s_init P min_B max_B stepping_method full_align =
     (case block_size_ladder min_B max_B stepping_method of
        Inl e \<Rightarrow> Inl e
      | Inr bs \<Rightarrow>
          Inr \<lparr> data = map (\<lambda>B. block_manager_s_create P B full_align) bs,
                pool_size = P,
                min_block_size = min_B,
                max_block_size = max_B,
                aligned = foldl (\<lambda>a b. a \<and> bm_aligned b) True
                            (map (\<lambda>B. block_manager_s_create P B full_align) bs),
                block_size_array = bs,
                internal_btree = {},
                external_btree = Map.empty,
                pools = Map.empty \<rparr>)"

definition tbman_s_create_default :: "error + tbman_s" where
  "tbman_s_create_default = tbman_s_init 65536 8 16384 1 True"

section \<open>Block manager: operations\<close>

text \<open>
  \<open>block_manager_s_alloc\<close>, lines 345 to 366: the block manager \<open>bi\<close> has no token manager
  with a free block and appends a new one. \<open>tbman_s_lost_alignment\<close> is the assignment to
  \<open>aligned\<close> of the memory manager.
\<close>

definition block_manager_s_grow :: "nat \<Rightarrow> platform \<Rightarrow> tbman_s \<Rightarrow> error + tbman_s" where
  "block_manager_s_grow bi pf s =
     (let bm = data s ! bi in
      case token_manager_s_create (bm_pool_size bm) (bm_block_size bm) (align bm) pf of
        Inl e \<Rightarrow> Inl e
      | Inr (a, tm) \<Rightarrow>
          let lost = (bm_aligned bm \<and> \<not> tm_aligned tm) in
          if a \<in> internal_btree s then Inl Fatal
          else Inr (s\<lparr> pools := (pools s)(a \<mapsto> tm\<lparr>parent_index := length (bm_data bm),
                                                      parent := Some bi\<rparr>),
                        aligned := (if lost then False else aligned s),
                        internal_btree := insert a (internal_btree s),
                        data := (data s)[bi := bm\<lparr>bm_data := bm_data bm @ [a],
                           bm_aligned := (if lost then False else bm_aligned bm)\<rparr>] \<rparr>))"

definition block_manager_s_alloc :: "nat \<Rightarrow> platform \<Rightarrow> tbman_s \<Rightarrow> error + (nat \<times> tbman_s)" where
  "block_manager_s_alloc bi pf s =
     (if length (data s) \<le> bi then Inl Undefined
      else case (if free_index (data s ! bi) = length (bm_data (data s ! bi))
                 then block_manager_s_grow bi pf s else Inr s) of
        Inl e \<Rightarrow> Inl e
      | Inr s1 \<Rightarrow>
          let bm = data s1 ! bi in
          if length (bm_data bm) \<le> free_index bm then Inl Undefined
          else let child = bm_data bm ! free_index bm in
            case pools s1 child of
              None \<Rightarrow> Inl Undefined
            | Some tm \<Rightarrow>
                (case token_manager_s_alloc child tm of
                   Inl e \<Rightarrow> Inl e
                 | Inr (ret, tm') \<Rightarrow>
                     Inr (ret, s1\<lparr> pools := (pools s1)(child \<mapsto> tm'),
                        data := (data s1)[bi := bm\<lparr>free_index :=
                          (if token_manager_s_is_full tm' then free_index bm + 1
                           else free_index bm)\<rparr>] \<rparr>)))"

text \<open>
  \<open>block_manager_s_full_to_free\<close>: the token manager at \<open>child\<close> reports that it turns from
  full to free. The second header is read after the first has been written, since
  \<open>child\<close> and \<open>swapc\<close> may be the same token manager.
\<close>

definition block_manager_s_full_to_free :: "nat \<Rightarrow> nat \<Rightarrow> tbman_s \<Rightarrow> error + tbman_s" where
  "block_manager_s_full_to_free bi child s =
     (if length (data s) \<le> bi then Inl Undefined
      else let bm = data s ! bi in
        if free_index bm = 0 then Inl Assertion
        else case pools s child of
          None \<Rightarrow> Inl Undefined
        | Some c \<Rightarrow>
            let child_index = parent_index c;
                swapc_index = free_index bm - 1
            in if length (bm_data bm) \<le> swapc_index \<or> length (bm_data bm) \<le> child_index
               then Inl Undefined
               else let swapc = bm_data bm ! swapc_index;
                        h1 = (pools s)(child \<mapsto> c\<lparr>parent_index := swapc_index\<rparr>)
                    in case h1 swapc of
                      None \<Rightarrow> Inl Undefined
                    | Some sc \<Rightarrow>
                        Inr (s\<lparr> pools := h1(swapc \<mapsto> sc\<lparr>parent_index := child_index\<rparr>),
                          data := (data s)[bi := bm\<lparr>free_index := swapc_index,
                            bm_data := (bm_data bm)[swapc_index := child,
                                                    child_index := swapc]\<rparr>] \<rparr>))"

text \<open>
  \<open>block_manager_s_empty_tail\<close>: the loop walks \<open>empty_index\<close> down from \<open>size\<close>; the
  function below is the loop at \<open>empty_index = n\<close> and returns the index it stops at.
\<close>

fun empty_index_loop :: "(nat \<rightharpoonup> token_manager_s) \<Rightarrow> nat list \<Rightarrow> nat \<Rightarrow> error + nat" where
  "empty_index_loop h d 0 = Inr 0"
| "empty_index_loop h d (Suc k) =
     (case h (d ! k) of
        None \<Rightarrow> Inl Undefined
      | Some tm \<Rightarrow> if token_manager_s_is_empty tm then empty_index_loop h d k
                   else Inr (Suc k))"

definition block_manager_s_empty_tail ::
    "(nat \<rightharpoonup> token_manager_s) \<Rightarrow> block_manager_s \<Rightarrow> error + nat" where
  "block_manager_s_empty_tail h bm =
     (if length (bm_data bm) = 0 then Inr 0
      else case empty_index_loop h (bm_data bm) (length (bm_data bm)) of
        Inl e \<Rightarrow> Inl e
      | Inr empty_index \<Rightarrow> Inr (length (bm_data bm) - empty_index))"

text \<open>
  \<open>block_manager_s_free_to_empty\<close>, lines 406 to 418: the empty token manager is moved to
  the tail. The result is the local variable \<open>empty_tail\<close> and the state.
\<close>

definition free_to_empty_move :: "nat \<Rightarrow> nat \<Rightarrow> tbman_s \<Rightarrow> error + (nat \<times> tbman_s)" where
  "free_to_empty_move bi child s =
     (if length (data s) \<le> bi then Inl Undefined
      else let bm = data s ! bi in
        case pools s child of
          None \<Rightarrow> Inl Undefined
        | Some c \<Rightarrow>
            (case block_manager_s_empty_tail (pools s) bm of
               Inl e \<Rightarrow> Inl e
             | Inr empty_tail \<Rightarrow>
                 let child_index = parent_index c;
                     swapc_index = length (bm_data bm) - empty_tail - 1
                 in if empty_tail < length (bm_data bm) \<and> child_index < swapc_index
                    then let swapc = bm_data bm ! swapc_index;
                             h1 = (pools s)(child \<mapsto> c\<lparr>parent_index := swapc_index\<rparr>)
                         in case h1 swapc of
                           None \<Rightarrow> Inl Undefined
                         | Some sc \<Rightarrow>
                             Inr (empty_tail + 1,
                               s\<lparr> pools := h1(swapc \<mapsto> sc\<lparr>parent_index := child_index\<rparr>),
                                 data := (data s)[bi := bm\<lparr>bm_data :=
                                   (bm_data bm)[child_index := swapc,
                                                swapc_index := child]\<rparr>] \<rparr>)
                    else Inr (empty_tail, s)))"

text \<open>
  Lines 422 to 433: the loop that discards empty token managers from the end of the
  vector, at \<open>size = n\<close>. It works on the vector, the pool-address tree and the store.
  \<open>token_manager_s_discard\<close> gives the pool back to the platform.
\<close>

fun sweep_loop :: "nat \<Rightarrow> nat list \<Rightarrow> nat set \<Rightarrow> (nat \<rightharpoonup> token_manager_s) \<Rightarrow>
    error + (nat list \<times> nat set \<times> (nat \<rightharpoonup> token_manager_s))" where
  "sweep_loop 0 d t h = Inr (d, t, h)"
| "sweep_loop (Suc k) d t h =
     (case h (d ! k) of
        None \<Rightarrow> Inl Undefined
      | Some tm \<Rightarrow>
          if token_manager_s_is_empty tm
          then (if d ! k \<in> t
                then sweep_loop k (take k d) (t - {d ! k}) (h(d ! k := None))
                else Inl Fatal)
          else Inr (d, t, h))"

definition block_manager_s_free_to_empty :: "nat \<Rightarrow> nat \<Rightarrow> tbman_s \<Rightarrow> error + tbman_s" where
  "block_manager_s_free_to_empty bi child s =
     (case free_to_empty_move bi child s of
        Inl e \<Rightarrow> Inl e
      | Inr (empty_tail, s1) \<Rightarrow>
          let bm = data s1 ! bi in
          if of_nat empty_tail > of_nat (length (bm_data bm) - empty_tail) * sweep_hysteresis bm
          then (case sweep_loop (length (bm_data bm)) (bm_data bm) (internal_btree s1) (pools s1) of
                  Inl e \<Rightarrow> Inl e
                | Inr (d, t, h) \<Rightarrow>
                    Inr (s1\<lparr> pools := h, internal_btree := t,
                             data := (data s1)[bi := bm\<lparr>bm_data := d\<rparr>] \<rparr>))
          else Inr s1)"

text \<open>
  \<open>token_manager_s_free\<close> (without \<open>RTCHECKS\<close>), for the token manager at address
  \<open>child\<close>. The pointer difference is converted to \<open>size_t\<close> for the division and the
  quotient is cut to a \<open>uint16_t\<close>; \<open>stack_index--\<close> wraps around at zero.
\<close>

definition token_manager_s_free :: "nat \<Rightarrow> nat \<Rightarrow> tbman_s \<Rightarrow> error + tbman_s" where
  "token_manager_s_free child ptr s =
     (case pools s child of
        None \<Rightarrow> Inl Undefined
      | Some tm \<Rightarrow>
          if tm_block_size tm = 0 then Inl Undefined
          else let token = uint16_t (size_t (2 ^ 64 + ptr - child) div tm_block_size tm) in
            case (if token_stack tm (stack_index tm) = 0
                  then (case parent tm of
                          None \<Rightarrow> Inl Undefined
                        | Some bi \<Rightarrow> block_manager_s_full_to_free bi child s)
                  else Inr s) of
              Inl e \<Rightarrow> Inl e
            | Inr s1 \<Rightarrow>
                (case pools s1 child of
                   None \<Rightarrow> Inl Undefined
                 | Some tm1 \<Rightarrow>
                     let i = uint16_t (stack_index tm1 + 65535);
                         s2 = s1\<lparr>pools := (pools s1)(child \<mapsto>
                                tm1\<lparr>stack_index := i,
                                    token_stack := (token_stack tm1)(i := token)\<rparr>)\<rparr>
                     in if i = 0
                        then (case parent tm1 of
                                None \<Rightarrow> Inl Undefined
                              | Some bi \<Rightarrow> block_manager_s_free_to_empty bi child s2)
                        else Inr s2))"

section \<open>Memory manager: operations\<close>

text \<open>
  The scan of \<open>block_size_array\<close> in \<open>tbman_s_mem_alloc\<close> and \<open>tbman_s_mem_realloc\<close>:
  the index of the first block size that is large enough, counted from \<open>i\<close>. Both
  \<open>data\<close> and \<open>block_size_array\<close> have \<open>size\<close> entries.
\<close>

fun find_block_manager :: "nat \<Rightarrow> nat list \<Rightarrow> nat \<Rightarrow> nat option" where
  "find_block_manager requested_size [] i = None"
| "find_block_manager requested_size (B # Bs) i =
     (if requested_size \<le> B then Some i else find_block_manager requested_size Bs (Suc i))"

text \<open>
  Modelled from the spec: the external size tree of \<open>btree.h\<close> is a map from pointers
  to sizes; registering a pointer that is present and removing one that is absent fail.
  Results are the pointer, the value stored to \<open>*granted_size\<close> and the state.
\<close>

definition external_alloc :: "tbman_s \<Rightarrow> nat \<Rightarrow> platform \<Rightarrow> error + (nat \<times> nat \<times> tbman_s)" where
  "external_alloc s requested_size pf =
     (let reserved_ptr = aligned_malloc pf TBMAN_ALIGN requested_size in
      if reserved_ptr = 0 then Inl Fatal
      else if reserved_ptr \<in> dom (external_btree s) then Inl Fatal
      else Inr (reserved_ptr, requested_size,
                s\<lparr>external_btree := (external_btree s)(reserved_ptr \<mapsto> requested_size)\<rparr>))"

definition external_free :: "tbman_s \<Rightarrow> nat \<Rightarrow> error + tbman_s" where
  "external_free s ptr =
     (if ptr \<in> dom (external_btree s)
      then Inr (s\<lparr>external_btree := (external_btree s)(ptr := None)\<rparr>)
      else Inl Fatal)"

definition tbman_s_mem_alloc :: "tbman_s \<Rightarrow> nat \<Rightarrow> platform \<Rightarrow> error + (nat \<times> nat \<times> tbman_s)" where
  "tbman_s_mem_alloc s requested_size pf =
     (case find_block_manager requested_size (block_size_array s) 0 of
        Some i \<Rightarrow>
          (case block_manager_s_alloc i pf s of
             Inl e \<Rightarrow> Inl e
           | Inr (reserved_ptr, s1) \<Rightarrow> Inr (reserved_ptr, bm_block_size (data s1 ! i), s1))
      | None \<Rightarrow> external_alloc s requested_size pf)"

text \<open>
  The owner of a pointer, as \<open>tbman_s_mem_free\<close> and \<open>tbman_s_mem_realloc\<close> determine it:
  with a size hint that is at most \<open>max_block_size\<close>, and all pools aligned, by masking
  the pointer with \<open>~(pool_size - 1)\<close>; otherwise by the pool-address tree. \<open>0\<close> stands
  for "no token manager".
\<close>

definition owner_by_mask :: "tbman_s \<Rightarrow> nat \<Rightarrow> nat" where
  "owner_by_mask s ptr = ptr AND (2 ^ 64 - 1 - size_t (2 ^ 64 + pool_size s - 1))"

definition owner_by_tree :: "tbman_s \<Rightarrow> nat \<Rightarrow> nat" where
  "owner_by_tree s ptr =
     (let block_ptr = btree_vd_s_largest_below_equal (internal_btree s) ptr
      in if block_ptr \<noteq> 0 \<and> ptr - block_ptr < pool_size s then block_ptr else 0)"

definition fast_path :: "tbman_s \<Rightarrow> nat option \<Rightarrow> bool" where
  "fast_path s current_size =
     (case current_size of
        None \<Rightarrow> False
      | Some c \<Rightarrow> c \<le> max_block_size s \<and> aligned s)"

definition tbman_s_mem_free :: "tbman_s \<Rightarrow> nat \<Rightarrow> nat option \<Rightarrow> error + tbman_s" where
  "tbman_s_mem_free s current_ptr current_size =
     (if fast_path s current_size
      then token_manager_s_free (owner_by_mask s current_ptr) current_ptr s
      else if owner_by_tree s current_ptr \<noteq> 0
           then token_manager_s_free (owner_by_tree s current_ptr) current_ptr s
           else external_free s current_ptr)"

definition tbman_s_mem_realloc ::
    "tbman_s \<Rightarrow> nat \<Rightarrow> nat option \<Rightarrow> nat \<Rightarrow> platform \<Rightarrow> error + (nat \<times> nat \<times> tbman_s)" where
  "tbman_s_mem_realloc s current_ptr current_size requested_size pf =
     (let token_manager = (if fast_path s current_size then owner_by_mask s current_ptr
                           else owner_by_tree s current_ptr)
      in if token_manager \<noteq> 0
         then (case pools s token_manager of
                 None \<Rightarrow> Inl Undefined
               | Some tm \<Rightarrow>
                   if requested_size > tm_block_size tm
                   then (case tbman_s_mem_alloc s requested_size pf of
                           Inl e \<Rightarrow> Inl e
                         | Inr (reserved_ptr, granted, s1) \<Rightarrow>
                             (case token_manager_s_free token_manager current_ptr s1 of
                                Inl e \<Rightarrow> Inl e
                              | Inr s2 \<Rightarrow> Inr (reserved_ptr, granted, s2)))
                   else (case find_block_manager requested_size (block_size_array s) 0 of
                           None \<Rightarrow> Inl Undefined
                         | Some i \<Rightarrow>
                             if length (data s) \<le> i then Inl Undefined
                             else if bm_block_size (data s ! i) \<noteq> tm_block_size tm
                             then (case block_manager_s_alloc i pf s of
                                     Inl e \<Rightarrow> Inl e
                                   | Inr (reserved_ptr, s1) \<Rightarrow>
                                       (case token_manager_s_free token_manager current_ptr s1 of
                                          Inl e \<Rightarrow> Inl e
                                        | Inr s2 \<Rightarrow>
                                            Inr (reserved_ptr, bm_block_size (data s2 ! i), s2)))
                             else Inr (current_ptr, tm_block_size tm, s)))
         else if requested_size \<le> max_block_size s
         then (case tbman_s_mem_alloc s requested_size pf of
                 Inl e \<Rightarrow> Inl e
               | Inr (reserved_ptr, granted, s1) \<Rightarrow>
                   (case external_free s1 current_ptr of
                      Inl e \<Rightarrow> Inl e
                    | Inr s2 \<Rightarrow> Inr (reserved_ptr, granted, s2)))
         else (case external_btree s current_ptr of
                 None \<Rightarrow> Inl Fatal
               | Some current_ext_bytes \<Rightarrow>
                   if requested_size < current_ext_bytes
                      \<and> requested_size \<ge> current_ext_bytes div 2
                   then Inr (current_ptr, current_ext_bytes, s)
                   else (case external_alloc s requested_size pf of
                           Inl e \<Rightarrow> Inl e
                         | Inr (reserved_ptr, granted, s1) \<Rightarrow>
                             (case external_free s1 current_ptr of
                                Inl e \<Rightarrow> Inl e
                              | Inr s2 \<Rightarrow> Inr (reserved_ptr, granted, s2)))))"

text \<open>
  \<open>tbman_s_alloc\<close> and \<open>tbman_s_nalloc\<close>, inside the critical section. A call that
  allocates nothing returns the null pointer.
\<close>

definition tbman_s_alloc :: "tbman_s \<Rightarrow> nat \<Rightarrow> nat \<Rightarrow> platform \<Rightarrow> error + (nat \<times> nat \<times> tbman_s)" where
  "tbman_s_alloc s current_ptr requested_size pf =
     (if requested_size = 0
      then (if current_ptr \<noteq> 0
            then (case tbman_s_mem_free s current_ptr None of
                    Inl e \<Rightarrow> Inl e
                  | Inr s1 \<Rightarrow> Inr (0, 0, s1))
            else Inr (0, 0, s))
      else if current_ptr \<noteq> 0
           then tbman_s_mem_realloc s current_ptr None requested_size pf
           else tbman_s_mem_alloc s requested_size pf)"

definition tbman_s_nalloc ::
    "tbman_s \<Rightarrow> nat \<Rightarrow> nat \<Rightarrow> nat \<Rightarrow> platform \<Rightarrow> error + (nat \<times> nat \<times> tbman_s)" where
  "tbman_s_nalloc s current_ptr current_size requested_size pf =
     (if requested_size = 0
      then (if current_size \<noteq> 0
            then (case tbman_s_mem_free s current_ptr (Some current_size) of
                    Inl e \<Rightarrow> Inl e
                  | Inr s1 \<Rightarrow> Inr (0, 0, s1))
            else Inr (0, 0, s))
      else if current_size \<noteq> 0
           then tbman_s_mem_realloc s current_ptr (Some current_size) requested_size pf
           else tbman_s_mem_alloc s requested_size pf)"

definition tbman_s_granted_space :: "tbman_s \<Rightarrow> nat \<Rightarrow> error + nat" where
  "tbman_s_granted_space s current_ptr =
     (if owner_by_tree s current_ptr \<noteq> 0
      then (case pools s (owner_by_tree s current_ptr) of
              None \<Rightarrow> Inl Undefined
            | Some tm \<Rightarrow> Inr (tm_block_size tm))
      else (case external_btree s current_ptr of
              None \<Rightarrow> Inr 0
            | Some current_ext_bytes \<Rightarrow> Inr current_ext_bytes))"

section \<open>Well-formed token managers and live blocks\<close>

text \<open>
  The number of blocks a pool can hand out: its blocks without the reserved ones at its
  start, which hold the header and the token stack.
\<close>

definition tm_cap :: "token_manager_s \<Rightarrow> nat" where
  "tm_cap tm = tm_pool_size tm div tm_block_size tm
                 - reserved_blocks (tm_pool_size tm) (tm_block_size tm)"

text \<open>
  The cells of the token stack from \<open>stack_index\<close> up to the capacity hold the tokens of
  the free blocks, each once; the cell at the capacity holds the sentinel \<open>0\<close>. The cells
  below \<open>stack_index\<close> are not constrained: \<open>token_manager_s_free\<close> overwrites the top one
  with the token it is given.
\<close>

definition tm_inv :: "token_manager_s \<Rightarrow> bool" where
  "tm_inv tm \<longleftrightarrow>
     0 < tm_block_size tm \<and> tm_pool_size tm \<le> 2 ^ 64 \<and>
     tm_pool_size tm div tm_block_size tm < 65536 \<and>
     reserved_blocks (tm_pool_size tm) (tm_block_size tm) < tm_pool_size tm div tm_block_size tm \<and>
     stack_size tm = tm_pool_size tm div tm_block_size tm \<and>
     stack_index tm \<le> tm_cap tm \<and>
     (\<forall>k. stack_index tm \<le> k \<and> k < tm_cap tm \<longrightarrow>
        reserved_blocks (tm_pool_size tm) (tm_block_size tm) \<le> token_stack tm k \<and>
        token_stack tm k < tm_pool_size tm div tm_block_size tm) \<and>
     inj_on (token_stack tm) {stack_index tm ..< tm_cap tm} \<and>
     token_stack tm (tm_cap tm) = 0"

text \<open>The tokens of the free blocks.\<close>

definition free_tokens :: "token_manager_s \<Rightarrow> nat set" where
  "free_tokens tm = token_stack tm ` {stack_index tm ..< tm_cap tm}"

text \<open>
  The pointer \<open>p\<close> is a block of the pool at \<open>a\<close> that is allocated: it is the start of a
  block behind the reserved ones whose token is not among the free ones.
\<close>

definition live_block :: "nat \<Rightarrow> token_manager_s \<Rightarrow> nat \<Rightarrow> bool" where
  "live_block a tm p \<longleftrightarrow>
     a \<le> p \<and> (p - a) mod tm_block_size tm = 0 \<and>
     reserved_blocks (tm_pool_size tm) (tm_block_size tm) \<le> (p - a) div tm_block_size tm \<and>
     (p - a) div tm_block_size tm < tm_pool_size tm div tm_block_size tm \<and>
     (p - a) div tm_block_size tm \<notin> free_tokens tm"

section \<open>The free operation of the token manager, in the words of the spec\<close>

text \<open>
  "If currently full (\<open>token_stack[i] == 0\<close>), notify parent full-to-free before
  decrementing; then decrement \<open>i\<close> and write the derived token \<open>(ptr - base)/B\<close> at
  position \<open>i\<close>; if now empty (\<open>i == 0\<close>), notify parent free-to-empty." The three steps
  are three functions, composed in this order; the arithmetic is that of the integers.
\<close>

definition notify_full_to_free :: "nat \<Rightarrow> tbman_s \<Rightarrow> error + tbman_s" where
  "notify_full_to_free child s =
     (case pools s child of
        None \<Rightarrow> Inl Undefined
      | Some tm \<Rightarrow>
          if token_stack tm (stack_index tm) = 0
          then (case parent tm of
                  None \<Rightarrow> Inl Undefined
                | Some bi \<Rightarrow> block_manager_s_full_to_free bi child s)
          else Inr s)"

definition push_token :: "nat \<Rightarrow> nat \<Rightarrow> tbman_s \<Rightarrow> error + tbman_s" where
  "push_token child ptr s =
     (case pools s child of
        None \<Rightarrow> Inl Undefined
      | Some tm \<Rightarrow>
          Inr (s\<lparr>pools := (pools s)(child \<mapsto>
                 tm\<lparr>stack_index := stack_index tm - 1,
                    token_stack := (token_stack tm)
                      (stack_index tm - 1 := (ptr - child) div tm_block_size tm)\<rparr>)\<rparr>))"

definition notify_free_to_empty :: "nat \<Rightarrow> tbman_s \<Rightarrow> error + tbman_s" where
  "notify_free_to_empty child s =
     (case pools s child of
        None \<Rightarrow> Inl Undefined
      | Some tm \<Rightarrow>
          if stack_index tm = 0
          then (case parent tm of
                  None \<Rightarrow> Inl Undefined
                | Some bi \<Rightarrow> block_manager_s_free_to_empty bi child s)
          else Inr s)"

definition token_manager_s_free_spec :: "nat \<Rightarrow> nat \<Rightarrow> tbman_s \<Rightarrow> error + tbman_s" where
  "token_manager_s_free_spec child ptr s =
     (case notify_full_to_free child s of
        Inl e \<Rightarrow> Inl e
      | Inr s1 \<Rightarrow>
          (case push_token child ptr s1 of
             Inl e \<Rightarrow> Inl e
           | Inr s2 \<Rightarrow> notify_free_to_empty child s2))"

section \<open>Reachable states and their invariants\<close>

text \<open>
  What the platform allocator guarantees in the state \<open>s\<close>: the memory it returns for a
  request lies inside the address space and is disjoint from every pool and every
  external block that is allocated. Nothing is assumed about alignment.
\<close>

definition platform_ok :: "tbman_s \<Rightarrow> platform \<Rightarrow> bool" where
  "platform_ok s pf \<longleftrightarrow>
     (\<forall>al sz. aligned_malloc pf al sz \<noteq> 0 \<longrightarrow>
        aligned_malloc pf al sz + sz \<le> 2 ^ 64 \<and>
        (\<forall>a\<in>dom (pools s).
            aligned_malloc pf al sz + sz \<le> a \<or> a + pool_size s \<le> aligned_malloc pf al sz) \<and>
        (\<forall>e n. external_btree s e = Some n \<longrightarrow>
            aligned_malloc pf al sz + sz \<le> e \<or> e + n \<le> aligned_malloc pf al sz))"

text \<open>
  The states the memory manager reaches from its construction through \<open>tbman_s_alloc\<close>
  and \<open>tbman_s_nalloc\<close>, together with the set of pointers the caller holds: a pointer
  enters the set when a call returns it and leaves it when it is passed back as
  \<open>current_ptr\<close>. The caller passes only pointers it holds (or the null pointer, or with
  \<open>tbman_s_nalloc\<close> any pointer together with the size \<open>0\<close>); a call that ends in an error
  is not a step.
\<close>

inductive reach :: "tbman_s \<Rightarrow> nat set \<Rightarrow> bool" where
  reach_init:
    "tbman_s_init P min_B max_B stepping_method full_align = Inr s \<Longrightarrow> reach s {}"
| reach_alloc:
    "reach s L \<Longrightarrow> platform_ok s pf \<Longrightarrow> current_ptr = 0 \<or> current_ptr \<in> L \<Longrightarrow>
     tbman_s_alloc s current_ptr requested_size pf = Inr (p, g, s') \<Longrightarrow>
     reach s' ((L - {current_ptr}) \<union> (if p = 0 then {} else {p}))"
| reach_nalloc:
    "reach s L \<Longrightarrow> platform_ok s pf \<Longrightarrow> current_size = 0 \<or> current_ptr \<in> L \<Longrightarrow>
     tbman_s_nalloc s current_ptr current_size requested_size pf = Inr (p, g, s') \<Longrightarrow>
     reach s' ((if current_size = 0 then L else L - {current_ptr})
                 \<union> (if p = 0 then {} else {p}))"

text \<open>
  Every size class has a stack size that fits the \<open>uint16_t\<close> fields of the token
  manager.
\<close>

definition stack_sizes_fit :: "tbman_s \<Rightarrow> bool" where
  "stack_sizes_fit s \<longleftrightarrow> (\<forall>B\<in>set (block_size_array s). pool_size s div B < 65536)"

text \<open>
  The token manager in slot \<open>k\<close> of the block manager \<open>bm\<close>, which is number \<open>bi\<close> of the
  memory manager: it is in the store \<open>h\<close>, points back to its slot and is well formed.
\<close>

definition slot_inv ::
    "(nat \<rightharpoonup> token_manager_s) \<Rightarrow> nat \<Rightarrow> nat \<Rightarrow> block_manager_s \<Rightarrow> nat \<Rightarrow> bool" where
  "slot_inv h P bi bm k \<longleftrightarrow>
     (\<exists>tm. h (bm_data bm ! k) = Some tm \<and> parent tm = Some bi \<and> parent_index tm = k \<and>
        tm_pool_size tm = P \<and> tm_block_size tm = bm_block_size bm \<and> tm_inv tm \<and>
        (tm_aligned tm \<longleftrightarrow> bm_data bm ! k AND (P - 1) = 0))"

text \<open>
  The partition of the vector of a block manager: full token managers in front of
  \<open>free_index\<close>, the others from \<open>free_index\<close> on, and the empty ones in one run at the
  end.
\<close>

definition partition_inv :: "(nat \<rightharpoonup> token_manager_s) \<Rightarrow> block_manager_s \<Rightarrow> bool" where
  "partition_inv h bm \<longleftrightarrow>
     free_index bm \<le> length (bm_data bm) \<and>
     (\<forall>k<length (bm_data bm). \<exists>tm. h (bm_data bm ! k) = Some tm \<and>
        (token_manager_s_is_full tm \<longleftrightarrow> k < free_index bm)) \<and>
     (\<exists>e\<le>length (bm_data bm). \<forall>k<length (bm_data bm). \<exists>tm. h (bm_data bm ! k) = Some tm \<and>
        (token_manager_s_is_empty tm \<longleftrightarrow> e \<le> k))"

definition struct_inv :: "tbman_s \<Rightarrow> bool" where
  "struct_inv s \<longleftrightarrow>
     length (data s) = length (block_size_array s) \<and>
     (\<forall>bi<length (data s).
        bm_pool_size (data s ! bi) = pool_size s \<and>
        bm_block_size (data s ! bi) = block_size_array s ! bi \<and>
        (\<forall>k<length (bm_data (data s ! bi)). slot_inv (pools s) (pool_size s) bi (data s ! bi) k)) \<and>
     (\<forall>a tm. pools s a = Some tm \<longrightarrow>
        (\<exists>bi<length (data s). parent tm = Some bi \<and>
           parent_index tm < length (bm_data (data s ! bi)) \<and>
           bm_data (data s ! bi) ! parent_index tm = a)) \<and>
     finite (dom (pools s)) \<and> internal_btree s = dom (pools s) \<and> 0 \<notin> dom (pools s) \<and>
     (\<forall>a b. a \<in> dom (pools s) \<and> b \<in> dom (pools s) \<and> a \<noteq> b \<longrightarrow>
        a + pool_size s \<le> b \<or> b + pool_size s \<le> a) \<and>
     (\<forall>a\<in>dom (pools s). a + pool_size s \<le> 2 ^ 64) \<and>
     (\<forall>e n. external_btree s e = Some n \<longrightarrow>
        0 < n \<and> e \<noteq> 0 \<and> e + n \<le> 2 ^ 64 \<and>
        (\<forall>a\<in>dom (pools s). e + n \<le> a \<or> a + pool_size s \<le> e))"

definition aligned_inv :: "tbman_s \<Rightarrow> bool" where
  "aligned_inv s \<longleftrightarrow>
     (aligned s \<longleftrightarrow> (\<forall>bi<length (data s). bm_aligned (data s ! bi))) \<and>
     (\<forall>bi<length (data s). bm_aligned (data s ! bi) \<longrightarrow>
        (\<forall>k<length (bm_data (data s ! bi)).
           bm_data (data s ! bi) ! k AND (pool_size s - 1) = 0))"

text \<open>Every pointer the caller holds is an external block or an allocated block of a pool.\<close>

definition live_inv :: "tbman_s \<Rightarrow> nat set \<Rightarrow> bool" where
  "live_inv s L \<longleftrightarrow>
     (\<forall>p\<in>L. p \<in> dom (external_btree s) \<or>
        (\<exists>a tm. pools s a = Some tm \<and> live_block a tm p))"

definition tbman_inv :: "tbman_s \<Rightarrow> nat set \<Rightarrow> bool" where
  "tbman_inv s L \<longleftrightarrow>
     struct_inv s \<and> (\<forall>bi<length (data s). partition_inv (pools s) (data s ! bi)) \<and>
     aligned_inv s \<and>
     live_inv s L"

section \<open>Auxiliary notions for the free operation\<close>

text \<open>
  The state in which the slots \<open>x\<close> and \<open>y\<close> of the block manager \<open>bi\<close> are exchanged:
  both callbacks of the block manager produce a state of this form. The header in slot
  \<open>x\<close> is written first.
\<close>

definition swap_slots :: "nat \<Rightarrow> nat \<Rightarrow> nat \<Rightarrow> tbman_s \<Rightarrow> tbman_s" where
  "swap_slots bi x y s =
     (let bm = data s ! bi; ax = bm_data bm ! x; ay = bm_data bm ! y;
          h1 = (pools s)(ax \<mapsto> (the (pools s ax))\<lparr>parent_index := y\<rparr>)
      in s\<lparr> pools := h1(ay \<mapsto> (the (h1 ay))\<lparr>parent_index := x\<rparr>),
            data := (data s)[bi := bm\<lparr>bm_data := (bm_data bm)[y := ax, x := ay]\<rparr>] \<rparr>)"

definition set_free_index :: "nat \<Rightarrow> nat \<Rightarrow> tbman_s \<Rightarrow> tbman_s" where
  "set_free_index bi f s = s\<lparr>data := (data s)[bi := (data s ! bi)\<lparr>free_index := f\<rparr>]\<rparr>"

text \<open>
  The partition while the token manager in slot \<open>c\<close> is being freed: it holds for
  every other slot, and slot \<open>c\<close> lies between the full and the empty token managers.
\<close>

definition partition_except :: "(nat \<rightharpoonup> token_manager_s) \<Rightarrow> block_manager_s \<Rightarrow> nat \<Rightarrow> nat \<Rightarrow> bool" where
  "partition_except h bm c e \<longleftrightarrow>
     free_index bm \<le> c \<and> c < e \<and> e \<le> length (bm_data bm) \<and>
     (\<forall>k<length (bm_data bm). k \<noteq> c \<longrightarrow>
        (\<exists>tm. h (bm_data bm ! k) = Some tm \<and>
           (token_manager_s_is_full tm \<longleftrightarrow> k < free_index bm) \<and>
           (token_manager_s_is_empty tm \<longleftrightarrow> e \<le> k)))"

section \<open>Example runs\<close>

text \<open>
  Two platforms: one answers every request of at most 64 KiB with the address \<open>a\<close> and
  hands out memory that holds zeros, the other has no memory left.
\<close>

definition example_platform :: "nat \<Rightarrow> platform" where
  "example_platform a =
     \<lparr>aligned_malloc = (\<lambda>al sz. if sz \<le> 65536 then a else 0), fresh_mem = (\<lambda>i. 0)\<rparr>"

definition no_platform :: platform where
  "no_platform = \<lparr>aligned_malloc = (\<lambda>al sz. 0), fresh_mem = (\<lambda>i. 0)\<rparr>"

text \<open>
  The states of a memory manager with pools of 512 bytes and the one block size 128,
  made by \<open>tbman_s_init 512 128 128 1 False\<close>. A pool has four blocks, the first of which
  holds the header and the token stack. \<open>ex_init\<close> is the state after construction;
  \<open>ex_pool a k\<close> has one pool at address \<open>a\<close> with \<open>k\<close> blocks allocated; \<open>ex_swept\<close> is the
  state after the only pool, which was not aligned, has been given back.
\<close>

definition ex_bm :: "nat list \<Rightarrow> nat \<Rightarrow> bool \<Rightarrow> block_manager_s" where
  "ex_bm d f al = \<lparr>bm_pool_size = 512, bm_block_size = 128, align = False, bm_data = d,
                   free_index = f, sweep_hysteresis = 1 / 8, bm_aligned = al\<rparr>"

definition ex_tm :: "bool \<Rightarrow> nat \<Rightarrow> token_manager_s" where
  "ex_tm al k = \<lparr>tm_pool_size = 512, tm_block_size = 128, stack_size = 4, stack_index = k,
                 tm_aligned = al, parent = Some 0, parent_index = 0,
                 token_stack = (\<lambda>i. if i < 3 then i + 1 else 0)\<rparr>"

definition ex_state ::
    "block_manager_s \<Rightarrow> bool \<Rightarrow> (nat \<rightharpoonup> nat) \<Rightarrow> (nat \<rightharpoonup> token_manager_s) \<Rightarrow> tbman_s" where
  "ex_state bm al ext h =
     \<lparr>data = [bm], pool_size = 512, min_block_size = 128, max_block_size = 128,
      aligned = al, block_size_array = [128], internal_btree = dom h,
      external_btree = ext, pools = h\<rparr>"

definition ex_init :: tbman_s where
  "ex_init = ex_state (ex_bm [] 0 True) True Map.empty Map.empty"

definition ex_pool :: "nat \<Rightarrow> nat \<Rightarrow> tbman_s" where
  "ex_pool a k = ex_state (ex_bm [a] 0 (a AND 511 = 0)) (a AND 511 = 0) Map.empty
                   [a \<mapsto> ex_tm (a AND 511 = 0) k]"

definition ex_swept :: tbman_s where
  "ex_swept = ex_state (ex_bm [] 0 False) False Map.empty Map.empty"

definition ex_external :: "nat \<Rightarrow> nat \<Rightarrow> tbman_s" where
  "ex_external p n = ex_state (ex_bm [] 0 True) True [p \<mapsto> n] Map.empty"

section \<open>The size-class ladder\<close>

lemma size_mask_loop_zero_aux:
  "size_mask_loop b m = Some y \<Longrightarrow> m = 0 \<longrightarrow> b = 0"
  apply (erule size_mask_loop.raw_induct[rotated])
  apply (auto simp: size_t_def split: if_splits)
  done

lemma size_mask_loop_zero: "0 < b \<Longrightarrow> size_mask_loop b 0 = None"
  using size_mask_loop_zero_aux[of b 0] by (cases "size_mask_loop b 0") auto

lemma bit_small:
  fixes y :: nat
  assumes "y < 2 ^ n" "bit y i"
  shows "i < n"
proof (rule ccontr)
  assume "\<not> i < n"
  then have "(2::nat) ^ n \<le> 2 ^ i" by simp
  with assms(1) have "y < 2 ^ i" by (rule less_le_trans)
  then have "y div 2 ^ i = 0" by simp
  with assms(2) show False by (simp add: bit_iff_odd)
qed

lemma and_push_bit_small:
  fixes y :: nat
  assumes "y < 2 ^ n"
  shows "(c * 2 ^ n) AND y = 0"
proof (rule bit_eqI)
  fix i
  show "bit ((c * 2 ^ n) AND y) i = bit (0::nat) i"
    using bit_small[OF assms, of i]
    by (auto simp: bit_and_iff bit_push_bit_iff simp flip: push_bit_eq_mult)
qed

lemma size_mask_loop_terminates_aux:
  assumes "0 < c" "min_B < 2 ^ K" "c * 2 ^ (K + 1) < 2 ^ 64"
  shows "j \<le> K \<Longrightarrow> \<exists>j'. j \<le> j' \<and> j' \<le> K \<and> size_mask_loop min_B (c * 2 ^ j) = Some (c * 2 ^ j')"
proof (induction "K - j" arbitrary: j)
  case 0
  then have jk: "j = K" by simp
  have a: "size_t (2 * (c * 2 ^ K)) = c * 2 ^ (K + 1)"
    using assms(3) by (simp add: size_t_def)
  have "min_B < 2 ^ (K + 1)" using assms(2) by simp
  then have b: "c * 2 ^ (K + 1) AND min_B = 0"
    by (rule and_push_bit_small)
  have "(2::nat) ^ K \<le> c * 2 ^ K" using assms(1) by simp
  with assms(2) have c: "\<not> c * 2 ^ K < min_B" by linarith
  show ?case unfolding jk
    by (subst size_mask_loop.simps) (use a b c in auto)
next
  case (Suc n)
  then have jk: "j < K" "n = K - (j + 1)" "j + 1 \<le> K" by simp_all
  have "(2::nat) ^ j \<le> 2 ^ K" using jk by simp
  then have "2 * (c * 2 ^ j) \<le> 2 * (c * 2 ^ K)" by simp
  moreover have "2 * (c * 2 ^ K) < 2 ^ 64" using assms(3) by simp
  ultimately have "2 * (c * 2 ^ j) < 2 ^ 64" by (rule le_less_trans)
  then have a: "size_t (2 * (c * 2 ^ j)) = c * 2 ^ (j + 1)"
    by (simp add: size_t_def)
  from Suc(1)[OF jk(2) jk(3)] obtain j' where j': "j + 1 \<le> j'" "j' \<le> K"
    "size_mask_loop min_B (c * 2 ^ (j + 1)) = Some (c * 2 ^ j')" by blast
  show ?case
  proof (cases "c * 2 ^ j < min_B \<or> size_t (2 * (c * 2 ^ j)) AND min_B \<noteq> 0")
    case True
    then have "size_mask_loop min_B (c * 2 ^ j) = size_mask_loop min_B (c * 2 ^ (j + 1))"
      by (subst size_mask_loop.simps) (simp add: a)
    with j' show ?thesis by (intro exI[of _ j']) simp
  next
    case False
    then have "size_mask_loop min_B (c * 2 ^ j) = Some (c * 2 ^ j)"
      by (subst size_mask_loop.simps) simp
    with jk show ?thesis by (intro exI[of _ j]) simp
  qed
qed

lemma size_mask_loop_exit:
  "size_mask_loop b m = Some y \<Longrightarrow> b \<le> y"
  apply (erule size_mask_loop.raw_induct[rotated])
  apply (auto split: if_splits)
  done

lemma bit_length_ex:
  assumes "1 \<le> (b::nat)"
  shows "\<exists>K. b < 2 ^ K \<and> 2 ^ K \<le> 2 * b"
proof -
  define K where "K = (LEAST k. b < 2 ^ k)"
  have ex: "b < 2 ^ b" by simp
  have 1: "b < 2 ^ K" unfolding K_def by (rule LeastI[of _ b]) (rule ex)
  have "K \<noteq> 0" using 1 assms by (cases K) auto
  then obtain K' where K': "K = Suc K'" by (cases K) auto
  have "\<not> b < 2 ^ K'" using not_less_Least[of K' "\<lambda>k. b < 2 ^ k"] K' by (simp add: K_def)
  then have "2 ^ K \<le> 2 * b" using K' by simp
  with 1 show ?thesis by blast
qed

lemma size_mask_loop_terminates:
  assumes "1 \<le> m" "1 \<le> min_B" "min_B * 2 ^ m \<le> 2 ^ 62"
  shows "\<exists>sm. size_mask_loop min_B (2 ^ m - 1) = Some sm \<and> min_B \<le> sm \<and> sm < 2 ^ 63"
proof -
  obtain K where K: "min_B < 2 ^ K" "2 ^ K \<le> 2 * min_B" using bit_length_ex[OF assms(2)] by blast
  define c :: nat where "c = 2 ^ m - 1"
  have "(1::nat) < 2 ^ m" using assms(1) by (intro one_less_power) simp_all
  then have c0: "0 < c" by (simp add: c_def)
  have "c < 2 ^ m" by (simp add: c_def)
  then have "c * 2 ^ K < 2 ^ m * 2 ^ K" by simp
  also have "\<dots> \<le> 2 ^ m * (2 * min_B)"
    using K(2) by (intro mult_le_mono2)
  also have "\<dots> = 2 * (min_B * 2 ^ m)" by simp
  also have "\<dots> \<le> 2 * 2 ^ 62" using assms(3) by simp
  finally have bound: "c * 2 ^ K < 2 ^ 63" by simp
  then have "c * 2 ^ (K + 1) < 2 ^ 64" by simp
  from size_mask_loop_terminates_aux[OF c0 K(1) this, of 0]
  obtain j' where j': "j' \<le> K" "size_mask_loop min_B c = Some (c * 2 ^ j')" by auto
  have "c * 2 ^ j' \<le> c * 2 ^ K" using j'(1) by simp
  with bound have "c * 2 ^ j' < 2 ^ 63" by linarith
  with j'(2) size_mask_loop_exit[OF j'(2)] show ?thesis by (simp add: c_def)
qed

lemma block_size_loop_terminates:
  assumes "max_B < 2 ^ 62"
  shows "0 < inc \<Longrightarrow> inc \<le> b \<Longrightarrow> sm < 2 ^ 63 \<Longrightarrow>
     \<exists>bs. block_size_loop max_B b sm inc acc = Some (acc @ bs) \<and> sorted_wrt (<) bs \<and>
       (\<forall>x\<in>set bs. b \<le> x \<and> x \<le> max_B) \<and> (b \<le> max_B \<longrightarrow> bs \<noteq> [] \<and> hd bs = b)"
proof (induction "Suc max_B - b" arbitrary: b sm inc acc rule: less_induct)
  case less
  show ?case
  proof (cases "b \<le> max_B")
    case False
    then have "block_size_loop max_B b sm inc acc = Some acc"
      by (subst block_size_loop.simps) simp
    with False show ?thesis by simp
  next
    case True
    define inc' where "inc' = (if b > sm then size_t (2 * inc) else inc)"
    define sm' where "sm' = (if b > sm then size_t (2 * sm) else sm)"
    define b' where "b' = size_t (b + inc')"
    have b62: "b < 2 ^ 62" using True assms by simp
    then have inc62: "inc < 2 ^ 62" using less.prems by simp
    have inc'_eq: "inc' = (if b > sm then 2 * inc else inc)"
      using inc62 by (simp add: inc'_def size_t_def)
    have b'_eq: "b' = b + inc'"
      using b62 inc62 by (simp add: b'_def inc'_eq size_t_def)
    have sm'_eq: "sm' = (if b > sm then 2 * sm else sm)"
      using less.prems(3) by (simp add: sm'_def size_t_def)
    have sm'_b: "sm' < 2 ^ 63" using less.prems(3) b62 by (auto simp: sm'_eq)
    have inc'_pos: "0 < inc'" "inc' \<le> b'" using less.prems by (auto simp: inc'_eq b'_eq)
    have step: "block_size_loop max_B b sm inc acc = block_size_loop max_B b' sm' inc' (acc @ [b])"
      by (subst block_size_loop.simps) (use True in \<open>simp add: b'_def inc'_def sm'_def\<close>)
    have "Suc max_B - b' < Suc max_B - b" using True inc'_pos by (simp add: b'_eq)
    from less.hyps[OF this inc'_pos sm'_b, of "acc @ [b]"]
    obtain bs where bs: "block_size_loop max_B b' sm' inc' (acc @ [b]) = Some ((acc @ [b]) @ bs)"
      "sorted_wrt (<) bs" "\<forall>x\<in>set bs. b' \<le> x \<and> x \<le> max_B" by blast
    have "b < b'" using inc'_pos by (simp add: b'_eq)
    with bs True show ?thesis
      by (intro exI[of _ "b # bs"]) (auto simp: step)
  qed
qed

lemma block_size_ladder_ok:
  assumes "1 \<le> m" "m \<le> 30" "1 \<le> min_B" "min_B \<le> max_B" "min_B * 2 ^ m \<le> 2 ^ 62" "max_B < 2 ^ 62"
  shows "\<exists>bs. block_size_ladder min_B max_B m = Inr bs \<and> sorted_wrt (<) bs \<and> bs \<noteq> [] \<and>
          hd bs = min_B \<and> (\<forall>B\<in>set bs. min_B \<le> B \<and> B \<le> max_B)"
proof -
  obtain sm where sm: "size_mask_loop min_B (2 ^ m - 1) = Some sm" "sm < 2 ^ 63"
    using size_mask_loop_terminates[OF assms(1,3,5)] by blast
  have "0 < min_B" using assms(3) by simp
  from block_size_loop_terminates[OF assms(6) this le_refl sm(2), of "[]"] assms(4)
  obtain bs where "block_size_loop max_B min_B sm min_B [] = Some bs" "sorted_wrt (<) bs"
     "\<forall>x\<in>set bs. min_B \<le> x \<and> x \<le> max_B" "bs \<noteq> []" "hd bs = min_B" by auto
  with sm assms(2) show ?thesis
    by (simp add: block_size_ladder_def initial_size_mask_def)
qed

lemma size_mask_loop_pow2_aux:
  "size_mask_loop b m0 = Some y \<Longrightarrow>
     (1 \<le> b \<and> b < 2 ^ 62 \<and> (\<exists>j. m0 = 2 ^ j) \<and> m0 < 2 * b \<longrightarrow> y < 2 * b)"
proof (erule size_mask_loop.raw_induct[rotated], intro impI, elim conjE exE)
  fix f b m0 y j
  assume IH: "\<And>b m0 y. f b m0 = Some y \<Longrightarrow>
      1 \<le> b \<and> b < 2 ^ 62 \<and> (\<exists>j. m0 = 2 ^ j) \<and> m0 < 2 * b \<longrightarrow> y < 2 * b"
    and step: "(if m0 < b \<or> size_t (2 * m0) AND b \<noteq> 0 then f b (size_t (2 * m0)) else Some m0) = Some y"
    and b: "1 \<le> b" "b < 2 ^ 62" and m0: "m0 = 2 ^ j" "m0 < 2 * b"
  have nowrap: "size_t (2 * m0) = 2 * m0" using m0(2) b(2) by (simp add: size_t_def)
  show "y < 2 * b"
  proof (cases "m0 < b")
    case True
    then have fy: "f b (2 * m0) = Some y" using step nowrap by simp
    have "2 * m0 = 2 ^ (j + 1)" using m0(1) by simp
    then have "\<exists>j. 2 * m0 = 2 ^ j" by blast
    moreover have "2 * m0 < 2 * b" using True by simp
    ultimately show ?thesis using IH[of b "2 * m0" y] b \<open>f b (2 * m0) = Some y\<close> by blast
  next
    case False
    then have "b \<le> 2 ^ j" using m0(1) by simp
    moreover have "(2::nat) ^ j < 2 ^ (j + 1)" by simp
    ultimately have "b < 2 ^ (j + 1)" by (rule le_less_trans)
    then have "1 * 2 ^ (j + 1) AND b = 0" by (rule and_push_bit_small)
    then have "size_t (2 * m0) AND b = 0" using nowrap m0(1) by simp
    with False step have "y = m0" by simp
    with m0(2) show ?thesis by simp
  qed
qed

lemma block_size_loop_doubling:
  assumes "max_B < 2 ^ 62" "1 \<le> b" "b \<le> M" "M < 2 * b"
  shows "\<exists>N. block_size_loop max_B (b * 2 ^ Suc k) (M * 2 ^ k) (b * 2 ^ k) acc
            = Some (acc @ map (\<lambda>i. b * 2 ^ i) [Suc k..<N])"
proof (induction "Suc max_B - b * 2 ^ Suc k" arbitrary: k acc rule: less_induct)
  case less
  show ?case
  proof (cases "b * 2 ^ Suc k \<le> max_B")
    case False
    then have "block_size_loop max_B (b * 2 ^ Suc k) (M * 2 ^ k) (b * 2 ^ k) acc = Some acc"
      by (subst block_size_loop.simps) simp
    then show ?thesis by (intro exI[of _ "Suc k"]) simp
  next
    case True
    have bn: "b * 2 ^ Suc k < 2 ^ 62" using True assms(1) by simp
    have "M * 2 ^ k < (2 * b) * 2 ^ k" using assms(4) by simp
    then have gt: "M * 2 ^ k < b * 2 ^ Suc k" by simp
    from gt bn have m62: "M * 2 ^ k < 2 ^ 62" by (rule less_trans)
    have e1: "size_t (2 * (b * 2 ^ k)) = b * 2 ^ Suc k" using bn by (simp add: size_t_def)
    have e2: "size_t (2 * (M * 2 ^ k)) = M * 2 ^ Suc k" using m62 by (simp add: size_t_def)
    have e3: "size_t (b * 2 ^ Suc k + b * 2 ^ Suc k) = b * 2 ^ Suc (Suc k)"
      using bn by (simp add: size_t_def)
    have "block_size_loop max_B (b * 2 ^ Suc k) (M * 2 ^ k) (b * 2 ^ k) acc
        = block_size_loop max_B (size_t (b * 2 ^ Suc k + size_t (2 * (b * 2 ^ k))))
            (size_t (2 * (M * 2 ^ k))) (size_t (2 * (b * 2 ^ k))) (acc @ [b * 2 ^ Suc k])"
      by (subst block_size_loop.simps) (use True gt in simp)
    then have step: "block_size_loop max_B (b * 2 ^ Suc k) (M * 2 ^ k) (b * 2 ^ k) acc
        = block_size_loop max_B (b * 2 ^ Suc (Suc k)) (M * 2 ^ Suc k) (b * 2 ^ Suc k)
            (acc @ [b * 2 ^ Suc k])"
      by (simp only: e1 e2 e3)
    have "0 < b * 2 ^ Suc k" using assms(2) by simp
    moreover have "b * 2 ^ Suc (Suc k) = b * 2 ^ Suc k + b * 2 ^ Suc k" by simp
    ultimately have "Suc max_B - b * 2 ^ Suc (Suc k) < Suc max_B - b * 2 ^ Suc k"
      using True by linarith
    from less.hyps[OF this, of "acc @ [b * 2 ^ Suc k]"]
    obtain N where N: "block_size_loop max_B (b * 2 ^ Suc (Suc k)) (M * 2 ^ Suc k) (b * 2 ^ Suc k)
         (acc @ [b * 2 ^ Suc k])
       = Some ((acc @ [b * 2 ^ Suc k]) @ map (\<lambda>i. b * 2 ^ i) [Suc (Suc k)..<N])" by auto
    show ?thesis
    proof (cases "Suc (Suc k) \<le> N")
      case True
      then have "[Suc k..<N] = Suc k # [Suc (Suc k)..<N]" by (simp add: upt_conv_Cons)
      with N step show ?thesis by (intro exI[of _ N]) simp
    next
      case False
      then have "[Suc (Suc k)..<N] = []" by simp
      with N step show ?thesis by (intro exI[of _ "Suc (Suc k)"]) simp
    qed
  qed
qed

lemma block_size_ladder_doubling:
  assumes "1 \<le> min_B" "min_B \<le> max_B" "min_B * 2 \<le> 2 ^ 62" "max_B < 2 ^ 62"
  shows "\<exists>N. block_size_ladder min_B max_B 1 = Inr (map (\<lambda>i. min_B * 2 ^ i) [0..<N])"
proof -
  have "min_B * 2 ^ 1 \<le> 2 ^ 62" using assms by simp
  from size_mask_loop_terminates[OF _ assms(1) this]
  obtain M where M: "size_mask_loop min_B 1 = Some M" "min_B \<le> M" by auto
  have "\<exists>j. (1::nat) = 2 ^ j" by (intro exI[of _ 0]) simp
  moreover have "min_B < 2 ^ 62" "1 < 2 * min_B" using assms by simp_all
  ultimately have M2: "M < 2 * min_B"
    using size_mask_loop_pow2_aux[OF M(1)] assms(1) by blast
  have e: "size_t (min_B + min_B) = min_B * 2 ^ Suc 0" using assms by (simp add: size_t_def)
  have "block_size_loop max_B min_B M min_B [] =
        block_size_loop max_B (size_t (min_B + min_B)) M min_B [min_B]"
    by (subst block_size_loop.simps) (use assms M(2) in simp)
  then have step: "block_size_loop max_B min_B M min_B [] =
        block_size_loop max_B (min_B * 2 ^ Suc 0) (M * 2 ^ 0) (min_B * 2 ^ 0) [min_B]"
    by (simp only: e) simp
  from block_size_loop_doubling[OF assms(4,1) M(2) M2, of 0 "[min_B]"]
  obtain N where N: "block_size_loop max_B (min_B * 2 ^ Suc 0) (M * 2 ^ 0) (min_B * 2 ^ 0) [min_B]
      = Some ([min_B] @ map (\<lambda>i. min_B * 2 ^ i) [Suc 0..<N])" by auto
  show ?thesis
  proof (cases "1 \<le> N")
    case True
    then have "[0..<N] = 0 # [Suc 0..<N]" by (simp add: upt_conv_Cons)
    with N step M(1) show ?thesis
      by (intro exI[of _ N]) (simp add: block_size_ladder_def initial_size_mask_def)
  next
    case False
    then have "[Suc 0..<N] = []" by simp
    with N step M(1) show ?thesis
      by (intro exI[of _ 1]) (simp add: block_size_ladder_def initial_size_mask_def)
  qed
qed

lemma tbman_s_init_ladder:
  "tbman_s_init P min_B max_B m full_align =
     (case block_size_ladder min_B max_B m of
        Inl e \<Rightarrow> Inl e
      | Inr bs \<Rightarrow> Inr \<lparr> data = map (\<lambda>B. block_manager_s_create P B full_align) bs,
                pool_size = P, min_block_size = min_B, max_block_size = max_B,
                aligned = foldl (\<lambda>a b. a \<and> bm_aligned b) True
                            (map (\<lambda>B. block_manager_s_create P B full_align) bs),
                block_size_array = bs, internal_btree = {},
                external_btree = Map.empty, pools = Map.empty \<rparr>)"
  by (simp add: tbman_s_init_def)

text \<open>
  C4, as the code has it. The claim as stated fails for the stepping parameter \<open>0\<close>: the
  mask starts at \<open>(1 << 0) - 1 = 0\<close>, shifting it left leaves it \<open>0\<close>, and the loop that
  raises it to the minimal block size never ends.
\<close>

theorem stepping_zero_diverges: "tbman_s_init 65536 8 16384 0 True = Inl Diverges"
  by (simp add: tbman_s_init_def block_size_ladder_def initial_size_mask_def size_mask_loop_zero)

text \<open>
  C4 (amended): for every stepping parameter from 1 to 30 and block sizes
  \<open>1 \<le> min_B \<le> max_B\<close> in the range where no \<open>size_t\<close> computation wraps around
  (\<open>min_B * 2^m \<le> 2^62\<close> and \<open>max_B < 2^62\<close>), the construction of the memory manager
  terminates; the block sizes it emits start at \<open>min_B\<close>, are strictly increasing and do
  not exceed \<open>max_B\<close>, and each block manager has the block size of its class. The
  stepping parameter \<open>1\<close> gives pure doubling: \<open>min_B, 2 * min_B, 4 * min_B, ...\<close>.
\<close>

theorem ladder_terminates_strictly_increasing:
  assumes "1 \<le> m" "m \<le> 30" "1 \<le> min_B" "min_B \<le> max_B"
    "min_B * 2 ^ m \<le> 2 ^ 62" "max_B < 2 ^ 62"
  shows "\<exists>s. tbman_s_init P min_B max_B m full_align = Inr s
           \<and> block_size_array s \<noteq> [] \<and> hd (block_size_array s) = min_B
           \<and> sorted_wrt (<) (block_size_array s)
           \<and> (\<forall>B\<in>set (block_size_array s). B \<le> max_B)
           \<and> map bm_block_size (data s) = block_size_array s
           \<and> (m = 1 \<longrightarrow> (\<exists>N. block_size_array s = map (\<lambda>i. min_B * 2 ^ i) [0..<N]))"
proof -
  obtain bs where bs: "block_size_ladder min_B max_B m = Inr bs" "sorted_wrt (<) bs"
      "bs \<noteq> []" "hd bs = min_B" "\<forall>B\<in>set bs. min_B \<le> B \<and> B \<le> max_B"
    using block_size_ladder_ok[OF assms] by blast
  have dbl: "m = 1 \<longrightarrow> (\<exists>N. bs = map (\<lambda>i. min_B * 2 ^ i) [0..<N])"
  proof
    assume m: "m = 1"
    then have "min_B * 2 \<le> 2 ^ 62" using assms(5) by simp
    from block_size_ladder_doubling[OF assms(3,4) this assms(6)] bs(1) m
    show "\<exists>N. bs = map (\<lambda>i. min_B * 2 ^ i) [0..<N]" by simp
  qed
  have "map bm_block_size (map (\<lambda>B. block_manager_s_create P B full_align) bs) = bs"
    by (simp add: block_manager_s_create_def comp_def)
  with bs dbl show ?thesis
    by (simp add: tbman_s_init_ladder)
qed

theorem ladder_default_witness:
  "\<exists>s. tbman_s_init 65536 8 16384 1 True = Inr s
       \<and> block_size_array s \<noteq> [] \<and> hd (block_size_array s) = 8
       \<and> sorted_wrt (<) (block_size_array s)
       \<and> (\<forall>B\<in>set (block_size_array s). B \<le> 16384)
       \<and> map bm_block_size (data s) = block_size_array s
       \<and> (\<exists>N. block_size_array s = map (\<lambda>i. 8 * 2 ^ i) [0..<N])"
  using ladder_terminates_strictly_increasing[of 1 8 16384 65536 True] by simp

section \<open>Token manager: creation\<close>

lemma reserved_blocks_pos: "0 < B \<Longrightarrow> 0 < reserved_blocks P B"
  unfolding reserved_blocks_def sizeof_token_manager_s_def Let_def
  by (cases "(40 + 2 * (P div B)) mod B > 0") (auto simp: div_greater_zero_iff mod_greater_zero_iff_not_dvd  dest!: dvd_imp_le)

lemma create_Inr:
  assumes "token_manager_s_create P B al pf = Inr (a, tm)"
  shows "P AND (P - 1) = 0" "0 < B" "P div B \<le> 65536" "reserved_blocks P B < P div B"
    "a = aligned_malloc pf (if al then P else TBMAN_ALIGN) P" "a \<noteq> 0"
    "tm_pool_size tm = P" "tm_block_size tm = B" "stack_size tm = uint16_t (P div B)"
    "stack_index tm = 0" "tm_aligned tm = (a AND (P - 1) = 0)" "parent tm = None"
    "token_stack tm = (\<lambda>i. if i < uint16_t (P div B)
                                then (if i + reserved_blocks P B < P div B
                                      then uint16_t (i + reserved_blocks P B) else 0)
                                else fresh_mem pf i)"
  using assms by (auto simp: token_manager_s_create_def Let_def split: if_splits)

lemma uint16_t_id: "x < 65536 \<Longrightarrow> uint16_t x = x"
  by (simp add: uint16_t_def)

lemma create_token_stack:
  assumes "token_manager_s_create P B al pf = Inr (a, tm)" "P div B < 65536" "k < P div B"
  shows "token_stack tm k = (if k + reserved_blocks P B < P div B then k + reserved_blocks P B else 0)"
  using assms(2,3) by (simp add: create_Inr(13)[OF assms(1)] uint16_t_id)

lemma create_tm_inv:
  assumes "token_manager_s_create P B al pf = Inr (a, tm)" "P div B < 65536" "P \<le> 2 ^ 64"
  shows "tm_inv tm"
proof -
  note c = create_Inr[OF assms(1)]
  let ?S = "P div B" and ?r = "reserved_blocks P B"
  have cap: "tm_cap tm = ?S - ?r" by (simp add: tm_cap_def c)
  have ts: "\<And>k. k < ?S \<Longrightarrow> token_stack tm k = (if k + ?r < ?S then k + ?r else 0)"
    using create_token_stack[OF assms(1,2)] by blast
  have rpos: "0 < ?r" using c(2) by (rule reserved_blocks_pos)
  have ts2: "\<And>k. k < ?S - ?r \<Longrightarrow> token_stack tm k = k + ?r"
    using ts by (simp add: less_diff_conv)
  have 1: "\<forall>k. stack_index tm \<le> k \<and> k < tm_cap tm \<longrightarrow> ?r \<le> token_stack tm k \<and> token_stack tm k < ?S"
    using ts2 cap by (auto simp: less_diff_conv)
  have 2: "inj_on (token_stack tm) {stack_index tm ..< tm_cap tm}"
    unfolding inj_on_def using ts2 cap by auto
  have 3: "token_stack tm (tm_cap tm) = 0"
    using ts[of "?S - ?r"] rpos c(4) cap by simp
  show ?thesis
    unfolding tm_inv_def using 1 2 3 c assms(2,3) cap by (simp add: uint16_t_id)
qed

lemma tm_inv_full_iff:
  assumes "tm_inv tm"
  shows "token_manager_s_is_full tm \<longleftrightarrow> stack_index tm = tm_cap tm"
proof
  assume "token_manager_s_is_full tm"
  then have z: "token_stack tm (stack_index tm) = 0" by (simp add: token_manager_s_is_full_def)
  show "stack_index tm = tm_cap tm"
  proof (rule ccontr)
    assume "stack_index tm \<noteq> tm_cap tm"
    with assms have "stack_index tm < tm_cap tm" by (simp add: tm_inv_def)
    with assms have "reserved_blocks (tm_pool_size tm) (tm_block_size tm) \<le> token_stack tm (stack_index tm)"
      by (simp add: tm_inv_def)
    moreover have "0 < reserved_blocks (tm_pool_size tm) (tm_block_size tm)"
      using assms by (intro reserved_blocks_pos) (simp add: tm_inv_def)
    ultimately show False using z by simp
  qed
next
  assume "stack_index tm = tm_cap tm"
  with assms show "token_manager_s_is_full tm"
    by (simp add: tm_inv_def token_manager_s_is_full_def)
qed

lemma tm_cap_pos: "tm_inv tm \<Longrightarrow> 0 < tm_cap tm"
  by (simp add: tm_inv_def tm_cap_def)

lemma create_not_full:
  assumes "token_manager_s_create P B al pf = Inr (a, tm)" "P div B < 65536" "P \<le> 2 ^ 64"
  shows "\<not> token_manager_s_is_full tm"
  using tm_inv_full_iff[OF create_tm_inv[OF assms]] tm_cap_pos[OF create_tm_inv[OF assms]]
    create_Inr(10)[OF assms(1)] by simp

text \<open>
  C5, at a pool of \<open>2^18\<close> bytes with blocks of 4 bytes, which the checks of
  \<open>token_manager_s_create\<close> accept: the stack size \<open>65536\<close> does not fit the \<open>uint16_t\<close>
  field, the field becomes \<open>0\<close>, the initialising loop does not run, and the token stack
  keeps what the fresh memory held. On memory that holds zeros the new token manager
  reports full although \<open>reserved_blocks = 32778 < 65536\<close>, and the first cell is not
  \<open>0 + reserved_blocks\<close>.
\<close>

theorem create_stack_size_65536_uninitialised:
  "\<exists>tm. token_manager_s_create 262144 4 True
            \<lparr>aligned_malloc = (\<lambda>al sz. 262144), fresh_mem = (\<lambda>i. 0)\<rparr> = Inr (262144, tm)
     \<and> 262144 div 4 = (65536::nat) \<and> reserved_blocks 262144 4 = 32778
     \<and> stack_size tm = 0 \<and> token_stack tm 0 = 0 \<and> token_manager_s_is_full tm"
proof -
  have "reserved_blocks 262144 4 = 32778"
    by (simp add: reserved_blocks_def sizeof_token_manager_s_def)
  then show ?thesis
    by (simp add: token_manager_s_create_def uint16_t_def token_manager_s_is_full_def)
qed

section \<open>Token manager: allocating and freeing a block\<close>

lemma reserved_blocks_mult:
  assumes "0 < B"
  shows "sizeof_token_manager_s + 2 * (P div B) \<le> reserved_blocks P B * B"
proof -
  let ?n = "sizeof_token_manager_s + 2 * (P div B)"
  have eq: "?n div B * B + ?n mod B = ?n" by (rule div_mult_mod_eq)
  have lt: "?n mod B < B" using assms by simp
  show ?thesis
  proof (cases "?n mod B > 0")
    case True
    then have "reserved_blocks P B * B = ?n div B * B + B"
      by (simp add: reserved_blocks_def Let_def)
    with eq lt show ?thesis by linarith
  next
    case False
    then have "reserved_blocks P B * B = ?n div B * B"
      by (simp add: reserved_blocks_def Let_def)
    with eq False show ?thesis by linarith
  qed
qed

lemma tm_cap_upd [simp]:
  "tm_cap (tm\<lparr>stack_index := x\<rparr>) = tm_cap tm"
  "tm_cap (tm\<lparr>token_stack := f\<rparr>) = tm_cap tm"
  "tm_cap (tm\<lparr>parent_index := k\<rparr>) = tm_cap tm"
  "tm_cap (tm\<lparr>parent := q\<rparr>) = tm_cap tm"
  by (simp_all add: tm_cap_def)

lemma tm_alloc_ok:
  assumes "tm_inv tm" "\<not> token_manager_s_is_full tm"
  shows "token_manager_s_alloc a tm =
           Inr (a + token_stack tm (stack_index tm) * tm_block_size tm,
                tm\<lparr>stack_index := Suc (stack_index tm)\<rparr>)"
    and "tm_inv (tm\<lparr>stack_index := Suc (stack_index tm)\<rparr>)"
    and "live_block a (tm\<lparr>stack_index := Suc (stack_index tm)\<rparr>)
           (a + token_stack tm (stack_index tm) * tm_block_size tm)"
    and "\<not> live_block a tm (a + token_stack tm (stack_index tm) * tm_block_size tm)"
    and "\<And>p. live_block a tm p \<Longrightarrow> live_block a (tm\<lparr>stack_index := Suc (stack_index tm)\<rparr>) p"
proof -
  let ?P = "tm_pool_size tm" and ?B = "tm_block_size tm"
  let ?S = "?P div ?B" and ?r = "reserved_blocks ?P ?B" and ?i = "stack_index tm"
  let ?t = "token_stack tm ?i"
  have lt: "?i < tm_cap tm" using assms tm_inv_full_iff[OF assms(1)] by (simp add: tm_inv_def)
  have B: "0 < ?B" using assms(1) by (simp add: tm_inv_def)
  have t: "?r \<le> ?t" "?t < ?S" using assms(1) lt by (simp_all add: tm_inv_def)
  have "tm_cap tm \<le> ?S" by (simp add: tm_cap_def)
  then have i16: "Suc ?i < 65536" using lt assms(1) by (simp add: tm_inv_def)
  have "sizeof_token_manager_s \<le> ?r * ?B" using reserved_blocks_mult[OF B, of ?P] by simp
  also have "\<dots> \<le> ?t * ?B" using t(1) by simp
  finally have hdr: "\<not> a + ?t * ?B < a + sizeof_token_manager_s" by simp
  show "token_manager_s_alloc a tm = Inr (a + ?t * ?B, tm\<lparr>stack_index := Suc ?i\<rparr>)"
    using assms(2) hdr i16 by (simp add: token_manager_s_alloc_def Let_def uint16_t_id)
  have inj: "inj_on (token_stack tm) {?i ..< tm_cap tm}" using assms(1) by (simp add: tm_inv_def)
  have sub: "{Suc ?i ..< tm_cap tm} \<subseteq> {?i ..< tm_cap tm}" by auto
  show "tm_inv (tm\<lparr>stack_index := Suc ?i\<rparr>)"
    using assms(1) lt inj_on_subset[OF inj sub] by (simp add: tm_inv_def tm_cap_def)
  have ft': "free_tokens (tm\<lparr>stack_index := Suc ?i\<rparr>) = token_stack tm ` {Suc ?i ..< tm_cap tm}"
    by (simp add: free_tokens_def)
  have notin: "?t \<notin> token_stack tm ` {Suc ?i ..< tm_cap tm}"
  proof
    assume "?t \<in> token_stack tm ` {Suc ?i ..< tm_cap tm}"
    then obtain k where k: "Suc ?i \<le> k" "k < tm_cap tm" "token_stack tm k = ?t" by auto
    with inj lt have "k = ?i" by (auto simp: inj_on_def)
    with k(1) show False by simp
  qed
  show "live_block a (tm\<lparr>stack_index := Suc ?i\<rparr>) (a + ?t * ?B)"
    using B t notin by (simp add: live_block_def ft')
  show "\<not> live_block a tm (a + ?t * ?B)"
    using B lt by (auto simp: live_block_def free_tokens_def)
  show "\<And>p. live_block a tm p \<Longrightarrow> live_block a (tm\<lparr>stack_index := Suc ?i\<rparr>) p"
    by (auto simp: live_block_def ft' free_tokens_def)
qed

lemma live_block_index_pos:
  assumes "tm_inv tm" "live_block a tm p"
  shows "0 < stack_index tm"
proof (rule ccontr)
  let ?P = "tm_pool_size tm" and ?B = "tm_block_size tm"
  let ?S = "?P div ?B" and ?r = "reserved_blocks ?P ?B"
  let ?t = "(p - a) div ?B"
  assume "\<not> 0 < stack_index tm"
  then have z: "stack_index tm = 0" by simp
  have inj: "inj_on (token_stack tm) {0 ..< tm_cap tm}" using assms(1) z by (simp add: tm_inv_def)
  have notin: "?t \<notin> token_stack tm ` {0 ..< tm_cap tm}"
    using assms(2) z by (simp add: live_block_def free_tokens_def)
  have "\<And>x. x \<in> token_stack tm ` {0 ..< tm_cap tm} \<Longrightarrow> x \<in> {?r ..< ?S}"
    using assms(1) z by (auto simp: tm_inv_def)
  then have "token_stack tm ` {0 ..< tm_cap tm} \<subseteq> {?r ..< ?S} - {?t}"
    using notin by blast
  then have "card (token_stack tm ` {0 ..< tm_cap tm}) \<le> card ({?r ..< ?S} - {?t})"
    by (intro card_mono) auto
  moreover have "card (token_stack tm ` {0 ..< tm_cap tm}) = tm_cap tm"
    using inj by (simp add: card_image)
  moreover have "?t \<in> {?r ..< ?S}" using assms(2) by (simp add: live_block_def)
  then have "card ({?r ..< ?S} - {?t}) = (?S - ?r) - 1" by simp
  ultimately have "tm_cap tm \<le> tm_cap tm - 1" by (simp add: tm_cap_def)
  with tm_cap_pos[OF assms(1)] show False by simp
qed

lemma tm_free_ok:
  assumes "tm_inv tm" "live_block a tm p"
  defines "i \<equiv> stack_index tm - 1" and "t \<equiv> (p - a) div tm_block_size tm"
  shows "uint16_t (stack_index tm + 65535) = i"
    and "uint16_t (size_t (2 ^ 64 + p - a) div tm_block_size tm) = t"
    and "tm_inv (tm\<lparr>stack_index := i, token_stack := (token_stack tm)(i := t)\<rparr>)"
    and "\<not> live_block a (tm\<lparr>stack_index := i, token_stack := (token_stack tm)(i := t)\<rparr>) p"
    and "\<And>q. live_block a tm q \<Longrightarrow> q \<noteq> p \<Longrightarrow>
           live_block a (tm\<lparr>stack_index := i, token_stack := (token_stack tm)(i := t)\<rparr>) q"
    and "\<And>q. live_block a (tm\<lparr>stack_index := i, token_stack := (token_stack tm)(i := t)\<rparr>) q
           \<Longrightarrow> live_block a tm q"
proof -
  let ?P = "tm_pool_size tm" and ?B = "tm_block_size tm"
  let ?S = "?P div ?B" and ?r = "reserved_blocks ?P ?B"
  let ?tm' = "tm\<lparr>stack_index := i, token_stack := (token_stack tm)(i := t)\<rparr>"
  have pos: "0 < stack_index tm" using assms(1,2) by (rule live_block_index_pos)
  have B: "0 < ?B" using assms(1) by (simp add: tm_inv_def)
  have cap: "tm_cap tm \<le> ?S" by (simp add: tm_cap_def)
  have S: "?S < 65536" "stack_index tm \<le> tm_cap tm" using assms(1) by (simp_all add: tm_inv_def)
  have "stack_index tm + 65535 = i + 65536" using pos by (simp add: i_def)
  then have "uint16_t (stack_index tm + 65535) = uint16_t i" by (simp add: uint16_t_def)
  moreover have "i < 65536" using S cap by (simp add: i_def)
  ultimately show "uint16_t (stack_index tm + 65535) = i" by (simp add: uint16_t_id)
  have t: "?r \<le> t" "t < ?S" "a \<le> p" "(p - a) mod ?B = 0"
    using assms(2) by (simp_all add: live_block_def t_def)
  have "p - a = t * ?B"
    unfolding t_def using t(4) div_mult_mod_eq[of "p - a" ?B] by linarith
  also have "\<dots> < ?S * ?B" using t(2) B by simp
  also have "\<dots> \<le> ?P" by simp
  finally have "p - a < 2 ^ 64" using assms(1) by (simp add: tm_inv_def)
  moreover have "2 ^ 64 + p - a = (p - a) + 2 ^ 64" using t(3) by simp
  then have "size_t (2 ^ 64 + p - a) = (p - a) mod 2 ^ 64"
    unfolding size_t_def by (simp only: mod_add_self2)
  ultimately have "size_t (2 ^ 64 + p - a) = p - a" by simp
  then show "uint16_t (size_t (2 ^ 64 + p - a) div ?B) = t"
    using t(2) S(1) by (simp add: uint16_t_id t_def)
  have tfree: "t \<notin> token_stack tm ` {stack_index tm ..< tm_cap tm}"
    using assms(2) by (simp add: live_block_def t_def free_tokens_def)
  have iv: "{i ..< tm_cap tm} = insert i {stack_index tm ..< tm_cap tm}"
    using pos S(2) by (auto simp: i_def)
  have inj: "inj_on (token_stack tm) {stack_index tm ..< tm_cap tm}"
    using assms(1) by (simp add: tm_inv_def)
  have eq_above: "((token_stack tm)(i := t)) k = token_stack tm k" if "stack_index tm \<le> k" for k
  proof -
    from that pos have "k \<noteq> i" unfolding i_def by linarith
    then show ?thesis by simp
  qed
  have "i < stack_index tm" using pos unfolding i_def by linarith
  then have inot: "i \<notin> {stack_index tm ..< tm_cap tm}" by simp
  have img0: "(token_stack tm)(i := t) ` {stack_index tm ..< tm_cap tm}
                = token_stack tm ` {stack_index tm ..< tm_cap tm}"
  proof (rule image_cong)
    fix x assume "x \<in> {stack_index tm ..< tm_cap tm}"
    with inot have "x \<noteq> i" by blast
    then show "((token_stack tm)(i := t)) x = token_stack tm x" by simp
  qed simp
  have inj': "inj_on ((token_stack tm)(i := t)) {i ..< tm_cap tm}"
    unfolding iv
  proof (rule inj_on_insert[THEN iffD2], intro conjI)
    have "inj_on ((token_stack tm)(i := t)) {stack_index tm ..< tm_cap tm}
            = inj_on (token_stack tm) {stack_index tm ..< tm_cap tm}"
    proof (rule inj_on_cong)
      fix x assume "x \<in> {stack_index tm ..< tm_cap tm}"
      with inot have "x \<noteq> i" by blast
      then show "((token_stack tm)(i := t)) x = token_stack tm x" by simp
    qed
    with inj show "inj_on ((token_stack tm)(i := t)) {stack_index tm ..< tm_cap tm}" by simp
    have "{stack_index tm ..< tm_cap tm} - {i} = {stack_index tm ..< tm_cap tm}"
      using inot by blast
    then show "((token_stack tm)(i := t)) i \<notin> (token_stack tm)(i := t) ` ({stack_index tm ..< tm_cap tm} - {i})"
      using tfree by (simp only: img0 fun_upd_same) simp
  qed
  have img: "(token_stack tm)(i := t) ` {i ..< tm_cap tm} = insert t (token_stack tm ` {stack_index tm ..< tm_cap tm})"
    unfolding iv by (simp only: image_insert fun_upd_same img0)
  have rng: "?r \<le> ((token_stack tm)(i := t)) k \<and> ((token_stack tm)(i := t)) k < ?S"
    if "i \<le> k" "k < tm_cap tm" for k
  proof (cases "k = i")
    case True
    with t show ?thesis by simp
  next
    case False
    with that(1) pos have k: "stack_index tm \<le> k" unfolding i_def by linarith
    with that(2) assms(1) have "?r \<le> token_stack tm k \<and> token_stack tm k < ?S"
      by (simp add: tm_inv_def)
    with eq_above[OF k] show ?thesis by simp
  qed
  have sent: "((token_stack tm)(i := t)) (tm_cap tm) = token_stack tm (tm_cap tm)"
    by (rule eq_above) (rule S(2))
  have ile: "i \<le> tm_cap tm" using S(2) unfolding i_def by linarith
  show "tm_inv ?tm'"
    using assms(1) inj' rng sent ile
    unfolding tm_inv_def tm_cap_def by simp
  have h1: "stack_index ?tm' = i" "token_stack ?tm' = (token_stack tm)(i := t)"
    "tm_cap ?tm' = tm_cap tm" "tm_block_size ?tm' = ?B" "tm_pool_size ?tm' = ?P"
    by (simp_all add: tm_cap_def)
  have ft: "free_tokens ?tm' = insert t (free_tokens tm)"
    unfolding free_tokens_def by (simp only: h1 img)
  show "\<not> live_block a ?tm' p"
    unfolding live_block_def by (simp only: h1 ft) (simp add: t_def)
  show "live_block a ?tm' q" if q: "live_block a tm q" "q \<noteq> p" for q
  proof -
    have "(q - a) div ?B \<noteq> t"
    proof
      assume "(q - a) div ?B = t"
      moreover have "(q - a) mod ?B = 0" using q(1) by (simp add: live_block_def)
      ultimately have "q - a = p - a"
        using div_mult_mod_eq[of "q - a" ?B] \<open>p - a = t * ?B\<close> by simp
      moreover have "a \<le> q" using q(1) by (simp add: live_block_def)
      ultimately show False using q(2) t(3) by linarith
    qed
    with q(1) show "live_block a ?tm' q"
      unfolding live_block_def by (simp only: h1 ft) simp
  qed
  show "live_block a tm q" if "live_block a ?tm' q" for q
    using that unfolding live_block_def by (simp only: h1 ft) simp
qed

section \<open>The invariant of the reachable states\<close>

lemma tbman_s_init_inv:
  assumes "tbman_s_init P min_B max_B m full_align = Inr s"
  shows "tbman_inv s {}"
proof -
  obtain bs where bs: "block_size_ladder min_B max_B m = Inr bs"
    using assms by (auto simp: tbman_s_init_ladder split: sum.splits)
  let ?d = "map (\<lambda>B. block_manager_s_create P B full_align) bs"
  have s: "s = \<lparr> data = ?d, pool_size = P, min_block_size = min_B, max_block_size = max_B,
                aligned = foldl (\<lambda>a b. a \<and> bm_aligned b) True ?d,
                block_size_array = bs, internal_btree = {},
                external_btree = Map.empty, pools = Map.empty \<rparr>"
    using assms bs by (simp add: tbman_s_init_ladder)
  have fold: "foldl (\<lambda>a b. a \<and> bm_aligned b) x (map (\<lambda>B. block_manager_s_create P B full_align) xs) = x" for x xs
    by (induction xs arbitrary: x) (simp_all add: block_manager_s_create_def)
  have 1: "struct_inv s"
    unfolding struct_inv_def s by (simp add: block_manager_s_create_def)
  have 2: "\<forall>bi<length (data s). partition_inv (pools s) (data s ! bi)"
    unfolding s by (auto simp: partition_inv_def block_manager_s_create_def)
  have 3: "aligned_inv s"
    unfolding aligned_inv_def s by (simp add: fold) (simp add: block_manager_s_create_def)
  have 4: "live_inv s {}" by (simp add: live_inv_def)
  from 1 2 3 4 show ?thesis by (simp add: tbman_inv_def)
qed

lemma struct_invD:
  assumes "struct_inv s"
  shows "length (data s) = length (block_size_array s)"
    and "\<And>bi. bi < length (data s) \<Longrightarrow> bm_pool_size (data s ! bi) = pool_size s"
    and "\<And>bi. bi < length (data s) \<Longrightarrow> bm_block_size (data s ! bi) = block_size_array s ! bi"
    and "\<And>bi k. bi < length (data s) \<Longrightarrow> k < length (bm_data (data s ! bi)) \<Longrightarrow>
           slot_inv (pools s) (pool_size s) bi (data s ! bi) k"
    and "\<And>a tm. pools s a = Some tm \<Longrightarrow>
        \<exists>bi<length (data s). parent tm = Some bi \<and>
           parent_index tm < length (bm_data (data s ! bi)) \<and>
           bm_data (data s ! bi) ! parent_index tm = a"
    and "finite (dom (pools s))" and "internal_btree s = dom (pools s)" and "0 \<notin> dom (pools s)"
    and "\<And>a b. a \<in> dom (pools s) \<Longrightarrow> b \<in> dom (pools s) \<Longrightarrow> a \<noteq> b \<Longrightarrow>
        a + pool_size s \<le> b \<or> b + pool_size s \<le> a"
    and "\<And>a. a \<in> dom (pools s) \<Longrightarrow> a + pool_size s \<le> 2 ^ 64"
    and "\<And>e n. external_btree s e = Some n \<Longrightarrow> 0 < n \<and> e \<noteq> 0 \<and> e + n \<le> 2 ^ 64 \<and>
        (\<forall>a\<in>dom (pools s). e + n \<le> a \<or> a + pool_size s \<le> e)"
  using assms unfolding struct_inv_def by blast+

lemma slot_invD:
  assumes "slot_inv h P bi bm k"
  obtains tm where "h (bm_data bm ! k) = Some tm" "parent tm = Some bi" "parent_index tm = k"
    "tm_pool_size tm = P" "tm_block_size tm = bm_block_size bm" "tm_inv tm"
    "tm_aligned tm \<longleftrightarrow> bm_data bm ! k AND (P - 1) = 0"
  using assms unfolding slot_inv_def by auto

lemma slot_invI:
  assumes "h (bm_data bm ! k) = Some tm" "parent tm = Some bi" "parent_index tm = k"
    "tm_pool_size tm = P" "tm_block_size tm = bm_block_size bm" "tm_inv tm"
    "tm_aligned tm \<longleftrightarrow> bm_data bm ! k AND (P - 1) = 0"
  shows "slot_inv h P bi bm k"
  using assms unfolding slot_inv_def by auto

lemma slot_inv_cong:
  assumes "bm_data bm' ! k = bm_data bm ! k" "h' (bm_data bm ! k) = h (bm_data bm ! k)"
    "bm_block_size bm' = bm_block_size bm"
  shows "slot_inv h' P bi bm' k = slot_inv h P bi bm k"
  using assms unfolding slot_inv_def by simp

lemma partition_inv_cong:
  assumes "bm_data bm' = bm_data bm" "free_index bm' = free_index bm"
    "\<And>a. a \<in> set (bm_data bm) \<Longrightarrow> h' a = h a"
  shows "partition_inv h' bm' = partition_inv h bm"
  using assms unfolding partition_inv_def by simp

text \<open>The slot in which a token manager sits is determined by its address.\<close>

lemma slot_unique:
  assumes "struct_inv s" "bi < length (data s)" "k < length (bm_data (data s ! bi))"
    "bi' < length (data s)" "k' < length (bm_data (data s ! bi'))"
    "bm_data (data s ! bi) ! k = bm_data (data s ! bi') ! k'"
  shows "bi = bi' \<and> k = k'"
proof -
  from struct_invD(4)[OF assms(1,2,3)] obtain tm where
    1: "pools s (bm_data (data s ! bi) ! k) = Some tm" "parent tm = Some bi" "parent_index tm = k"
    by (rule slot_invD)
  from struct_invD(4)[OF assms(1,4,5)] obtain tm' where
    2: "pools s (bm_data (data s ! bi') ! k') = Some tm'" "parent tm' = Some bi'" "parent_index tm' = k'"
    by (rule slot_invD)
  from 1 2 assms(6) show ?thesis by simp
qed

lemma slot_in_dom:
  assumes "struct_inv s" "bi < length (data s)" "a \<in> set (bm_data (data s ! bi))"
  shows "a \<in> dom (pools s)"
proof -
  from assms(3) obtain k where k: "k < length (bm_data (data s ! bi))" "bm_data (data s ! bi) ! k = a"
    by (auto simp: in_set_conv_nth)
  from struct_invD(4)[OF assms(1,2) k(1)] k(2) show ?thesis
    by (auto elim!: slot_invD)
qed

lemma distinct_bm_data:
  assumes "struct_inv s" "bi < length (data s)"
  shows "distinct (bm_data (data s ! bi))"
  unfolding distinct_conv_nth using slot_unique[OF assms(1,2) _ assms(2)] by blast

lemma block_manager_s_grow_Inr:
  assumes "block_manager_s_grow bi pf s = Inr s1"
  obtains a tm where
    "token_manager_s_create (bm_pool_size (data s ! bi)) (bm_block_size (data s ! bi))
        (align (data s ! bi)) pf = Inr (a, tm)"
    "a \<notin> internal_btree s"
    "s1 = s\<lparr> pools := (pools s)(a \<mapsto> tm\<lparr>parent_index := length (bm_data (data s ! bi)),
                                                      parent := Some bi\<rparr>),
             aligned := (if bm_aligned (data s ! bi) \<and> \<not> tm_aligned tm then False else aligned s),
             internal_btree := insert a (internal_btree s),
             data := (data s)[bi := (data s ! bi)\<lparr>bm_data := bm_data (data s ! bi) @ [a],
                 bm_aligned := (if bm_aligned (data s ! bi) \<and> \<not> tm_aligned tm then False
                                else bm_aligned (data s ! bi))\<rparr>] \<rparr>"
  using assms unfolding block_manager_s_grow_def Let_def
  by (auto split: sum.splits if_splits prod.splits)

lemma tm_inv_parent_upd [simp]:
  "tm_inv (tm\<lparr>parent_index := k\<rparr>) = tm_inv tm"
  "tm_inv (tm\<lparr>parent := q\<rparr>) = tm_inv tm"
  by (simp_all add: tm_inv_def)

lemma free_tokens_parent_upd [simp]:
  "free_tokens (tm\<lparr>parent_index := k\<rparr>) = free_tokens tm"
  "free_tokens (tm\<lparr>parent := q\<rparr>) = free_tokens tm"
  by (simp_all add: free_tokens_def)

lemma live_block_parent_upd [simp]:
  "live_block a (tm\<lparr>parent_index := k\<rparr>) p = live_block a tm p"
  "live_block a (tm\<lparr>parent := q\<rparr>) p = live_block a tm p"
  by (simp_all add: live_block_def)

lemma is_full_parent_upd [simp]:
  "token_manager_s_is_full (tm\<lparr>parent_index := k\<rparr>) = token_manager_s_is_full tm"
  "token_manager_s_is_full (tm\<lparr>parent := q\<rparr>) = token_manager_s_is_full tm"
  "token_manager_s_is_empty (tm\<lparr>parent_index := k\<rparr>) = token_manager_s_is_empty tm"
  "token_manager_s_is_empty (tm\<lparr>parent := q\<rparr>) = token_manager_s_is_empty tm"
  by (simp_all add: token_manager_s_is_full_def token_manager_s_is_empty_def)

lemma partition_invD_full:
  assumes "partition_inv h bm" "k < length (bm_data bm)" "h (bm_data bm ! k) = Some tm"
  shows "token_manager_s_is_full tm \<longleftrightarrow> k < free_index bm"
  using assms unfolding partition_inv_def by fastforce

lemma block_manager_s_grow_inv:
  assumes inv: "tbman_inv s L" and fit: "stack_sizes_fit s" and pf: "platform_ok s pf"
    and bi: "bi < length (data s)"
    and full: "free_index (data s ! bi) = length (bm_data (data s ! bi))"
    and g: "block_manager_s_grow bi pf s = Inr s1"
  shows "tbman_inv s1 L"
    and "free_index (data s1 ! bi) < length (bm_data (data s1 ! bi))"
    and "length (data s1) = length (data s)"
    and "external_btree s1 = external_btree s"
    and "pool_size s1 = pool_size s" and "block_size_array s1 = block_size_array s"
    and "max_block_size s1 = max_block_size s"
    and "\<And>a. a \<in> dom (pools s) \<Longrightarrow> pools s1 a = pools s a"
proof -
  let ?bm = "data s ! bi" and ?P = "pool_size s"
  let ?n = "length (bm_data ?bm)"
  from inv have st: "struct_inv s" and part: "\<forall>bi<length (data s). partition_inv (pools s) (data s ! bi)"
    and al: "aligned_inv s" and lv: "live_inv s L" by (simp_all add: tbman_inv_def)
  note sd = struct_invD[OF st]
  from g obtain a tm where
    c: "token_manager_s_create (bm_pool_size ?bm) (bm_block_size ?bm) (align ?bm) pf = Inr (a, tm)"
    and anew: "a \<notin> internal_btree s"
    and s1: "s1 = s\<lparr> pools := (pools s)(a \<mapsto> tm\<lparr>parent_index := ?n, parent := Some bi\<rparr>),
             aligned := (if bm_aligned ?bm \<and> \<not> tm_aligned tm then False else aligned s),
             internal_btree := insert a (internal_btree s),
             data := (data s)[bi := ?bm\<lparr>bm_data := bm_data ?bm @ [a],
                 bm_aligned := (if bm_aligned ?bm \<and> \<not> tm_aligned tm then False
                                else bm_aligned ?bm)\<rparr>] \<rparr>"
    by (rule block_manager_s_grow_Inr)
  let ?tm1 = "tm\<lparr>parent_index := ?n, parent := Some bi\<rparr>"
  let ?bm1 = "?bm\<lparr>bm_data := bm_data ?bm @ [a],
                 bm_aligned := (if bm_aligned ?bm \<and> \<not> tm_aligned tm then False
                                else bm_aligned ?bm)\<rparr>"
  have P: "bm_pool_size ?bm = ?P" and B: "bm_block_size ?bm = block_size_array s ! bi"
    using sd(2,3) bi by simp_all
  note cr = create_Inr[OF c, unfolded P]
  have adom: "a \<notin> dom (pools s)" using anew sd(7) by simp
  have a0: "a \<noteq> 0" by (rule cr(6))
  have am: "a = aligned_malloc pf (if align ?bm then ?P else TBMAN_ALIGN) ?P" by (rule cr(5))
  have pfa: "a + ?P \<le> 2 ^ 64" "\<forall>b\<in>dom (pools s). a + ?P \<le> b \<or> b + ?P \<le> a"
    "\<forall>e n. external_btree s e = Some n \<longrightarrow> a + ?P \<le> e \<or> e + n \<le> a"
    using pf a0 unfolding platform_ok_def am by blast+
  have "block_size_array s ! bi \<in> set (block_size_array s)" using bi sd(1) by simp
  then have S16: "?P div bm_block_size ?bm < 65536" using fit B by (simp add: stack_sizes_fit_def)
  have "?P \<le> 2 ^ 64" using pfa(1) by simp
  then have tminv: "tm_inv tm" using create_tm_inv[OF c] S16 P by simp
  have tmnf: "\<not> token_manager_s_is_full tm" using create_not_full[OF c] S16 P \<open>?P \<le> 2 ^ 64\<close> by simp
  have tme: "token_manager_s_is_empty tm" using cr(10) by (simp add: token_manager_s_is_empty_def)
  \<comment> \<open>components of the new state\<close>
  have d1: "data s1 = (data s)[bi := ?bm1]" and h1: "pools s1 = (pools s)(a \<mapsto> ?tm1)"
    and t1: "internal_btree s1 = insert a (internal_btree s)"
    and e1: "external_btree s1 = external_btree s" and p1: "pool_size s1 = ?P"
    and b1: "block_size_array s1 = block_size_array s"
    and m1: "max_block_size s1 = max_block_size s"
    by (simp_all add: s1)
  have len1: "length (data s1) = length (data s)" by (simp add: d1)
  have nth1: "data s1 ! bi = ?bm1" using bi by (simp add: d1)
  have nth1': "\<And>bj. bj \<noteq> bi \<Longrightarrow> data s1 ! bj = data s ! bj" by (simp add: d1)
  have keep: "pools s1 b = pools s b" if "b \<in> dom (pools s)" for b
    using that adom by (auto simp: h1)
  \<comment> \<open>slots\<close>
  have slots: "slot_inv (pools s1) ?P bj (data s1 ! bj) k"
    if bj: "bj < length (data s)" and k: "k < length (bm_data (data s1 ! bj))" for bj k
  proof (cases "bj = bi \<and> k = ?n")
    case True
    then show ?thesis
      using cr tminv by (intro slot_invI[where tm = ?tm1]) (simp_all add: nth1 h1 P)
  next
    case False
    then have k': "k < length (bm_data (data s ! bj))"
      using k by (cases "bj = bi") (auto simp: nth1 nth1')
    have same: "bm_data (data s1 ! bj) ! k = bm_data (data s ! bj) ! k"
      using k' by (cases "bj = bi") (auto simp: nth1 nth1' nth_append)
    have "bm_data (data s ! bj) ! k \<in> dom (pools s)"
      using slot_in_dom[OF st bj] k' by simp
    then have "pools s1 (bm_data (data s ! bj) ! k) = pools s (bm_data (data s ! bj) ! k)"
      by (rule keep)
    moreover have "bm_block_size (data s1 ! bj) = bm_block_size (data s ! bj)"
      by (cases "bj = bi") (auto simp: nth1 nth1')
    ultimately have "slot_inv (pools s1) ?P bj (data s1 ! bj) k = slot_inv (pools s) ?P bj (data s ! bj) k"
      using same by (intro slot_inv_cong) simp_all
    then show ?thesis using sd(4)[OF bj k'] by simp
  qed
  have owner: "\<exists>bj<length (data s1). parent t = Some bj \<and>
           parent_index t < length (bm_data (data s1 ! bj)) \<and>
           bm_data (data s1 ! bj) ! parent_index t = b" if "pools s1 b = Some t" for b t
  proof (cases "b = a")
    case True
    with that have "t = ?tm1" by (simp add: h1)
    then show ?thesis using bi True by (intro exI[of _ bi]) (simp add: len1 nth1)
  next
    case False
    with that have "pools s b = Some t" by (simp add: h1)
    from sd(5)[OF this] obtain bj where bj: "bj < length (data s)" "parent t = Some bj"
      "parent_index t < length (bm_data (data s ! bj))" "bm_data (data s ! bj) ! parent_index t = b"
      by blast
    then show ?thesis
      by (intro exI[of _ bj]) (cases "bj = bi"; simp add: len1 nth1 nth1' nth_append)
  qed
  have st1: "struct_inv s1"
    unfolding struct_inv_def
  proof (intro conjI allI impI ballI)
    show "length (data s1) = length (block_size_array s1)" using sd(1) by (simp add: len1 b1)
    show "bm_pool_size (data s1 ! bj) = pool_size s1" if "bj < length (data s1)" for bj
      using that sd(2)[of bj] by (cases "bj = bi") (simp_all add: len1 nth1 nth1' p1)
    show "bm_block_size (data s1 ! bj) = block_size_array s1 ! bj" if "bj < length (data s1)" for bj
      using that sd(3)[of bj] by (cases "bj = bi") (simp_all add: len1 nth1 nth1' b1)
    show "slot_inv (pools s1) (pool_size s1) bj (data s1 ! bj) k"
      if "bj < length (data s1)" "k < length (bm_data (data s1 ! bj))" for bj k
      using slots[of bj k] that by (simp add: len1 p1)
    show "\<exists>bj<length (data s1). parent t = Some bj \<and>
           parent_index t < length (bm_data (data s1 ! bj)) \<and>
           bm_data (data s1 ! bj) ! parent_index t = b" if "pools s1 b = Some t" for b t
      using owner[OF that] .
    show "finite (dom (pools s1))" using sd(6) by (simp add: h1)
    show "internal_btree s1 = dom (pools s1)" using sd(7) by (simp add: h1 t1)
    show "0 \<notin> dom (pools s1)" using sd(8) a0 by (simp add: h1)
    show "b + pool_size s1 \<le> c \<or> c + pool_size s1 \<le> b"
      if "b \<in> dom (pools s1) \<and> c \<in> dom (pools s1) \<and> b \<noteq> c" for b c
      using that sd(9)[of b c] pfa(2) by (auto simp: h1 p1 split: if_splits)
    show "b + pool_size s1 \<le> 2 ^ 64" if "b \<in> dom (pools s1)" for b
      using that sd(10)[of b] pfa(1) by (auto simp: h1 p1 split: if_splits)
    fix e n assume en: "external_btree s1 e = Some n"
    then have en': "external_btree s e = Some n" by (simp add: e1)
    from sd(11)[OF en'] show "0 < n" "e \<noteq> 0" "e + n \<le> 2 ^ 64" by simp_all
    fix b assume "b \<in> dom (pools s1)"
    then show "e + n \<le> b \<or> b + pool_size s1 \<le> e"
      using sd(11)[OF en'] pfa(3) en' by (auto simp: h1 p1 split: if_splits)
  qed
  \<comment> \<open>partition\<close>
  have part1: "partition_inv (pools s1) (data s1 ! bj)" if bj: "bj < length (data s)" for bj
  proof -
    show ?thesis
    proof (cases "bj = bi")
      case False
      have "partition_inv (pools s1) (data s ! bj) = partition_inv (pools s) (data s ! bj)"
        using slot_in_dom[OF st bj] keep by (intro partition_inv_cong) simp_all
      then show ?thesis using part bj False by (simp add: nth1')
    next
      case True
      have pold: "partition_inv (pools s) ?bm" using part bi by simp
      have oldfull: "\<exists>t. pools s1 (bm_data ?bm ! k) = Some t \<and> token_manager_s_is_full t
                        \<and> \<not> token_manager_s_is_empty t" if "k < ?n" for k
      proof -
        from sd(4)[OF bi that] obtain t where t: "pools s (bm_data ?bm ! k) = Some t" "tm_inv t"
          by (rule slot_invD)
        have f: "token_manager_s_is_full t" using partition_invD_full[OF pold that t(1)] that full by simp
        then have "stack_index t = tm_cap t" using tm_inv_full_iff[OF t(2)] by simp
        then have "\<not> token_manager_s_is_empty t"
          using tm_cap_pos[OF t(2)] by (simp add: token_manager_s_is_empty_def)
        moreover have "pools s1 (bm_data ?bm ! k) = Some t"
          using keep[of "bm_data ?bm ! k"] t(1) by auto
        ultimately show ?thesis using f by blast
      qed
      have new: "pools s1 a = Some ?tm1" by (simp add: h1)
      show ?thesis
        unfolding True nth1 partition_inv_def
      proof (intro conjI)
        show "free_index ?bm1 \<le> length (bm_data ?bm1)" using full by simp
        show "\<forall>k<length (bm_data ?bm1). \<exists>t. pools s1 (bm_data ?bm1 ! k) = Some t \<and>
                (token_manager_s_is_full t \<longleftrightarrow> k < free_index ?bm1)"
        proof (intro allI impI)
          fix k assume "k < length (bm_data ?bm1)"
          then consider "k < ?n" | "k = ?n" by fastforce
          then show "\<exists>t. pools s1 (bm_data ?bm1 ! k) = Some t \<and>
                (token_manager_s_is_full t \<longleftrightarrow> k < free_index ?bm1)"
          proof cases
            case 1
            with oldfull[OF 1] full show ?thesis by (auto simp: nth_append)
          next
            case 2
            with new tmnf full show ?thesis by (simp add: nth_append)
          qed
        qed
        show "\<exists>e\<le>length (bm_data ?bm1). \<forall>k<length (bm_data ?bm1).
                \<exists>t. pools s1 (bm_data ?bm1 ! k) = Some t \<and> (token_manager_s_is_empty t \<longleftrightarrow> e \<le> k)"
        proof (intro exI[of _ ?n] conjI allI impI)
          show "?n \<le> length (bm_data ?bm1)" by simp
          fix k assume "k < length (bm_data ?bm1)"
          then consider "k < ?n" | "k = ?n" by fastforce
          then show "\<exists>t. pools s1 (bm_data ?bm1 ! k) = Some t \<and> (token_manager_s_is_empty t \<longleftrightarrow> ?n \<le> k)"
          proof cases
            case 1
            with oldfull[OF 1] show ?thesis by (auto simp: nth_append)
          next
            case 2
            with new tme show ?thesis by (simp add: nth_append)
          qed
        qed
      qed
    qed
  qed
  \<comment> \<open>alignment flags\<close>
  have al1: "aligned_inv s1"
  proof -
    from al have a1: "aligned s \<longleftrightarrow> (\<forall>bj<length (data s). bm_aligned (data s ! bj))"
      and a2: "\<And>bj k. bj < length (data s) \<Longrightarrow> bm_aligned (data s ! bj) \<Longrightarrow>
                 k < length (bm_data (data s ! bj)) \<Longrightarrow> bm_data (data s ! bj) ! k AND (?P - 1) = 0"
      by (auto simp: aligned_inv_def)
    have f1: "aligned s1 \<longleftrightarrow> (\<forall>bj<length (data s1). bm_aligned (data s1 ! bj))"
    proof (cases "bm_aligned ?bm \<and> \<not> tm_aligned tm")
      case True
      then have "\<not> aligned s1" by (simp add: s1)
      moreover have "\<not> bm_aligned (data s1 ! bi)" unfolding nth1 using True by simp
      ultimately show ?thesis using bi by (auto simp: len1)
    next
      case False
      then have "aligned s1 = aligned s" "bm_aligned ?bm1 = bm_aligned ?bm" by (auto simp: s1)
      moreover have "bm_aligned (data s1 ! bj) = bm_aligned (data s ! bj)" if "bj < length (data s)" for bj
        using calculation(2) by (cases "bj = bi") (simp_all add: nth1 nth1')
      ultimately show ?thesis using a1 by (simp add: len1)
    qed
    have f2: "bm_data (data s1 ! bj) ! k AND (pool_size s1 - 1) = 0"
      if "bj < length (data s1)" "bm_aligned (data s1 ! bj)" "k < length (bm_data (data s1 ! bj))" for bj k
    proof (cases "bj = bi")
      case False
      with that a2[of bj k] show ?thesis by (simp add: len1 nth1' p1)
    next
      case True
      with that(2) have ba: "bm_aligned ?bm" "tm_aligned tm" by (auto simp: nth1 split: if_splits)
      from that(3) True consider "k < ?n" | "k = ?n" by (fastforce simp: nth1)
      then show ?thesis
      proof cases
        case 1
        with a2[OF bi ba(1) 1] True show ?thesis by (simp add: nth1 nth_append p1)
      next
        case 2
        with ba(2) cr(11) True show ?thesis by (simp add: nth1 p1)
      qed
    qed
    from f1 f2 show ?thesis unfolding aligned_inv_def by blast
  qed
  have lv1: "live_inv s1 L"
    unfolding live_inv_def
  proof
    fix p assume "p \<in> L"
    with lv consider "p \<in> dom (external_btree s)" | b t where "pools s b = Some t" "live_block b t p"
      unfolding live_inv_def by blast
    then show "p \<in> dom (external_btree s1) \<or> (\<exists>a tm. pools s1 a = Some tm \<and> live_block a tm p)"
    proof cases
      case 1
      then show ?thesis by (simp add: e1)
    next
      case 2
      then have "pools s1 b = Some t" using keep[of b] by auto
      with 2(2) show ?thesis by blast
    qed
  qed
  show "tbman_inv s1 L"
    using st1 part1 al1 lv1 unfolding tbman_inv_def by (simp add: len1)
  show "free_index (data s1 ! bi) < length (bm_data (data s1 ! bi))" using full by (simp add: nth1)
  show "length (data s1) = length (data s)" by (rule len1)
  show "external_btree s1 = external_btree s" by (rule e1)
  show "pool_size s1 = pool_size s" by (rule p1)
  show "block_size_array s1 = block_size_array s" by (rule b1)
  show "max_block_size s1 = max_block_size s" by (rule m1)
  show "\<And>a. a \<in> dom (pools s) \<Longrightarrow> pools s1 a = pools s a" by (rule keep)
qed

lemma pool_tm:
  assumes "struct_inv s" "pools s a = Some tm"
  shows "tm_pool_size tm = pool_size s" "tm_inv tm"
    "tm_aligned tm \<longleftrightarrow> a AND (pool_size s - 1) = 0"
    "\<exists>bi<length (data s). parent tm = Some bi \<and>
       parent_index tm < length (bm_data (data s ! bi)) \<and>
       bm_data (data s ! bi) ! parent_index tm = a \<and>
       tm_block_size tm = bm_block_size (data s ! bi)"
proof -
  from struct_invD(5)[OF assms] obtain bi where bi: "bi < length (data s)" "parent tm = Some bi"
    "parent_index tm < length (bm_data (data s ! bi))" "bm_data (data s ! bi) ! parent_index tm = a"
    by blast
  from struct_invD(4)[OF assms(1) bi(1,3)] obtain tm' where
    "pools s (bm_data (data s ! bi) ! parent_index tm) = Some tm'"
    "tm_pool_size tm' = pool_size s" "tm_block_size tm' = bm_block_size (data s ! bi)" "tm_inv tm'"
    "tm_aligned tm' \<longleftrightarrow> bm_data (data s ! bi) ! parent_index tm AND (pool_size s - 1) = 0"
    by (rule slot_invD)
  with bi(4) assms(2) have r: "tm_pool_size tm = pool_size s" "tm_block_size tm = bm_block_size (data s ! bi)"
    "tm_inv tm" "tm_aligned tm \<longleftrightarrow> a AND (pool_size s - 1) = 0" by simp_all
  from r show "tm_pool_size tm = pool_size s" "tm_inv tm"
    "tm_aligned tm \<longleftrightarrow> a AND (pool_size s - 1) = 0" by simp_all
  from bi r(2) show "\<exists>bi<length (data s). parent tm = Some bi \<and>
       parent_index tm < length (bm_data (data s ! bi)) \<and>
       bm_data (data s ! bi) ! parent_index tm = a \<and>
       tm_block_size tm = bm_block_size (data s ! bi)" by (intro exI[of _ bi]) simp
qed

lemma live_block_range:
  assumes "tm_inv tm" "live_block a tm p"
  shows "a < p" "p < a + tm_pool_size tm"
proof -
  let ?B = "tm_block_size tm" and ?P = "tm_pool_size tm"
  let ?t = "(p - a) div ?B"
  have B: "0 < ?B" using assms(1) by (simp add: tm_inv_def)
  have l: "a \<le> p" "(p - a) mod ?B = 0" "reserved_blocks ?P ?B \<le> ?t" "?t < ?P div ?B"
    using assms(2) by (simp_all add: live_block_def)
  have eq: "p - a = ?t * ?B" using l(2) div_mult_mod_eq[of "p - a" ?B] by linarith
  have "0 < ?t" using reserved_blocks_pos[OF B, of ?P] l(3) by linarith
  then have "0 < ?t * ?B" using B by simp
  with eq l(1) show "a < p" by linarith
  have "Suc ?t \<le> ?P div ?B" using l(4) by simp
  then have "Suc ?t * ?B \<le> ?P div ?B * ?B" by (rule mult_le_mono1)
  also have "\<dots> \<le> ?P" by simp
  finally have "?t * ?B < ?P" using B by simp
  with eq l(1) show "p < a + ?P" by linarith
qed

lemma live_block_pool_unique:
  assumes "struct_inv s" "pools s a = Some tm" "live_block a tm p"
    "pools s b = Some tm'" "live_block b tm' p"
  shows "a = b"
proof (rule ccontr)
  assume ne: "a \<noteq> b"
  note 1 = pool_tm(2,1)[OF assms(1,2)]
  note 2 = pool_tm(2,1)[OF assms(1,4)]
  from live_block_range[OF 1(1) assms(3)] 1(2) have r1: "a < p" "p < a + pool_size s" by simp_all
  from live_block_range[OF 2(1) assms(5)] 2(2) have r2: "b < p" "p < b + pool_size s" by simp_all
  from struct_invD(9)[OF assms(1), of a b] assms(2,4) ne
  have "a + pool_size s \<le> b \<or> b + pool_size s \<le> a" by blast
  with r1 r2 show False by linarith
qed

lemma live_block_not_external:
  assumes "struct_inv s" "pools s a = Some tm" "live_block a tm p"
  shows "p \<notin> dom (external_btree s)"
proof
  assume "p \<in> dom (external_btree s)"
  then obtain n where n: "external_btree s p = Some n" by blast
  note 1 = pool_tm(2,1)[OF assms(1,2)]
  from live_block_range[OF 1(1) assms(3)] 1(2) have r1: "a < p" "p < a + pool_size s" by simp_all
  have "a \<in> dom (pools s)" using assms(2) by blast
  with struct_invD(11)[OF assms(1) n] have "0 < n" "p + n \<le> a \<or> a + pool_size s \<le> p"
    by simp_all
  with r1 show False by linarith
qed

lemma tm_take_inv:
  fixes s :: tbman_s
  assumes inv: "tbman_inv s L" and bi: "bi < length (data s)"
    and lt: "free_index (data s ! bi) < length (bm_data (data s ! bi))"
    and tm: "pools s (bm_data (data s ! bi) ! free_index (data s ! bi)) = Some tm"
  defines "child \<equiv> bm_data (data s ! bi) ! free_index (data s ! bi)"
    and "ret \<equiv> bm_data (data s ! bi) ! free_index (data s ! bi)
                 + token_stack tm (stack_index tm) * tm_block_size tm"
    and "tm' \<equiv> tm\<lparr>stack_index := Suc (stack_index tm)\<rparr>"
  defines "s' \<equiv> s\<lparr> pools := (pools s)(child \<mapsto> tm'),
                   data := (data s)[bi := (data s ! bi)\<lparr>free_index :=
                          (if token_manager_s_is_full tm' then free_index (data s ! bi) + 1
                           else free_index (data s ! bi))\<rparr>] \<rparr>"
  shows "token_manager_s_alloc child tm = Inr (ret, tm')"
    and "tbman_inv s' (insert ret L)" and "ret \<notin> L" and "live_block child tm' ret"
    and "tm_block_size tm' = bm_block_size (data s ! bi)"
proof -
  let ?bm = "data s ! bi" and ?P = "pool_size s"
  let ?f = "free_index ?bm"
  let ?bm' = "?bm\<lparr>free_index := (if token_manager_s_is_full tm' then ?f + 1 else ?f)\<rparr>"
  from inv have st: "struct_inv s" and part: "\<forall>bi<length (data s). partition_inv (pools s) (data s ! bi)"
    and al: "aligned_inv s" and lv: "live_inv s L" by (simp_all add: tbman_inv_def)
  note sd = struct_invD[OF st]
  have tm_c: "pools s child = Some tm" using tm by (simp add: child_def)
  from sd(4)[OF bi lt] tm have sl: "parent tm = Some bi" "parent_index tm = ?f"
    "tm_pool_size tm = ?P" "tm_block_size tm = bm_block_size ?bm" "tm_inv tm"
    by (auto elim!: slot_invD)
  have nf: "\<not> token_manager_s_is_full tm"
    using partition_invD_full[OF part[rule_format, OF bi] lt tm] by simp
  note ta = tm_alloc_ok(1)[OF sl(5) nf, of child] tm_alloc_ok(2)[OF sl(5) nf]
    tm_alloc_ok(3)[OF sl(5) nf, of child] tm_alloc_ok(4)[OF sl(5) nf, of child]
    tm_alloc_ok(5)[OF sl(5) nf, of child]
  show 1: "token_manager_s_alloc child tm = Inr (ret, tm')"
    using ta(1) by (simp add: ret_def tm'_def child_def)
  have tminv': "tm_inv tm'" using ta(2) by (simp add: tm'_def)
  show lr: "live_block child tm' ret" using ta(3) by (simp add: ret_def tm'_def child_def)
  have nl: "\<not> live_block child tm ret" using ta(4) by (simp add: ret_def child_def)
  have keepl: "\<And>p. live_block child tm p \<Longrightarrow> live_block child tm' p"
    using ta(5) by (simp add: tm'_def)
  show "tm_block_size tm' = bm_block_size (data s ! bi)" using sl(4) by (simp add: tm'_def)
  \<comment> \<open>components of the new state\<close>
  have d1: "data s' = (data s)[bi := ?bm']" and h1: "pools s' = (pools s)(child \<mapsto> tm')"
    and t1: "internal_btree s' = internal_btree s"
    and e1: "external_btree s' = external_btree s" and p1: "pool_size s' = ?P"
    and b1: "block_size_array s' = block_size_array s" and a1: "aligned s' = aligned s"
    by (simp_all add: s'_def)
  have len1: "length (data s') = length (data s)" by (simp add: d1)
  have nth1: "data s' ! bi = ?bm'" using bi by (simp add: d1)
  have nth1': "\<And>bj. bj \<noteq> bi \<Longrightarrow> data s' ! bj = data s ! bj" by (simp add: d1)
  have bd: "bm_data (data s' ! bj) = bm_data (data s ! bj)" for bj
    by (cases "bj = bi") (simp_all add: nth1 nth1')
  have bb: "bm_block_size (data s' ! bj) = bm_block_size (data s ! bj)" for bj
    by (cases "bj = bi") (simp_all add: nth1 nth1')
  have bp: "bm_pool_size (data s' ! bj) = bm_pool_size (data s ! bj)" for bj
    by (cases "bj = bi") (simp_all add: nth1 nth1')
  have ba: "bm_aligned (data s' ! bj) = bm_aligned (data s ! bj)" for bj
    by (cases "bj = bi") (simp_all add: nth1 nth1')
  have dom1: "dom (pools s') = dom (pools s)" using tm_c by (auto simp: h1)
  have keep: "pools s' b = pools s b" if "b \<noteq> child" for b using that by (simp add: h1)
  have child_slot: "bj = bi \<and> k = ?f"
    if "bj < length (data s)" "k < length (bm_data (data s ! bj))" "bm_data (data s ! bj) ! k = child" for bj k
    using slot_unique[OF st that(1,2) bi lt] that(3) by (simp add: child_def)
  have slots: "slot_inv (pools s') ?P bj (data s' ! bj) k"
    if bj: "bj < length (data s)" and k: "k < length (bm_data (data s ! bj))" for bj k
  proof (cases "bm_data (data s ! bj) ! k = child")
    case True
    with child_slot[OF bj k] have e: "bj = bi" "k = ?f" by simp_all
    from sd(4)[OF bi lt] tm have "tm_aligned tm \<longleftrightarrow> child AND (?P - 1) = 0"
      by (auto elim!: slot_invD simp: child_def)
    then show ?thesis unfolding e
      using sl tminv' by (intro slot_invI[where tm = tm']) (simp_all add: bd bb h1 child_def tm'_def)
  next
    case False
    then have "slot_inv (pools s') ?P bj (data s' ! bj) k = slot_inv (pools s) ?P bj (data s ! bj) k"
      by (intro slot_inv_cong) (simp_all add: bd bb keep)
    then show ?thesis using sd(4)[OF bj k] by simp
  qed
  have owner: "\<exists>bj<length (data s'). parent t = Some bj \<and>
           parent_index t < length (bm_data (data s' ! bj)) \<and>
           bm_data (data s' ! bj) ! parent_index t = b" if "pools s' b = Some t" for b t
  proof (cases "b = child")
    case True
    with that have "t = tm'" by (simp add: h1)
    then show ?thesis using bi lt True sl
      by (intro exI[of _ bi]) (simp add: len1 bd tm'_def child_def)
  next
    case False
    with that have "pools s b = Some t" by (simp add: h1)
    from sd(5)[OF this] show ?thesis by (simp add: len1 bd)
  qed
  have st1: "struct_inv s'"
    unfolding struct_inv_def
  proof (intro conjI allI impI ballI)
    show "length (data s') = length (block_size_array s')" using sd(1) by (simp add: len1 b1)
    show "bm_pool_size (data s' ! bj) = pool_size s'" if "bj < length (data s')" for bj
      using that sd(2)[of bj] by (simp add: len1 bp p1)
    show "bm_block_size (data s' ! bj) = block_size_array s' ! bj" if "bj < length (data s')" for bj
      using that sd(3)[of bj] by (simp add: len1 bb b1)
    show "slot_inv (pools s') (pool_size s') bj (data s' ! bj) k"
      if "bj < length (data s')" "k < length (bm_data (data s' ! bj))" for bj k
      using slots[of bj k] that by (simp add: len1 p1 bd)
    show "\<exists>bj<length (data s'). parent t = Some bj \<and>
           parent_index t < length (bm_data (data s' ! bj)) \<and>
           bm_data (data s' ! bj) ! parent_index t = b" if "pools s' b = Some t" for b t
      using owner[OF that] .
    show "finite (dom (pools s'))" using sd(6) by (simp add: dom1)
    show "internal_btree s' = dom (pools s')" using sd(7) by (simp add: dom1 t1)
    show "0 \<notin> dom (pools s')" using sd(8) by (simp add: dom1)
    show "b + pool_size s' \<le> c \<or> c + pool_size s' \<le> b"
      if "b \<in> dom (pools s') \<and> c \<in> dom (pools s') \<and> b \<noteq> c" for b c
      using that sd(9)[of b c] by (simp add: dom1 p1)
    show "b + pool_size s' \<le> 2 ^ 64" if "b \<in> dom (pools s')" for b
      using that sd(10)[of b] by (simp add: dom1 p1)
    fix e n assume en: "external_btree s' e = Some n"
    then have en': "external_btree s e = Some n" by (simp add: e1)
    from sd(11)[OF en'] show "0 < n" "e \<noteq> 0" "e + n \<le> 2 ^ 64" by simp_all
    fix b assume "b \<in> dom (pools s')"
    then show "e + n \<le> b \<or> b + pool_size s' \<le> e"
      using sd(11)[OF en'] by (simp add: dom1 p1)
  qed
  \<comment> \<open>partition\<close>
  have part1: "partition_inv (pools s') (data s' ! bj)" if bj: "bj < length (data s)" for bj
  proof (cases "bj = bi")
    case False
    have "child \<notin> set (bm_data (data s ! bj))"
      using child_slot[OF bj] False by (auto simp: in_set_conv_nth)
    then have "pools s' b = pools s b" if "b \<in> set (bm_data (data s ! bj))" for b
      using that by (intro keep) blast
    then have "partition_inv (pools s') (data s ! bj) = partition_inv (pools s) (data s ! bj)"
      by (intro partition_inv_cong) simp_all
    then show ?thesis using part bj False by (simp add: nth1')
  next
    case True
    have pold: "partition_inv (pools s) ?bm" using part bi by simp
    then obtain e where e: "e \<le> length (bm_data ?bm)"
      "\<And>k. k < length (bm_data ?bm) \<Longrightarrow> \<exists>t. pools s (bm_data ?bm ! k) = Some t \<and>
          (token_manager_s_is_empty t \<longleftrightarrow> e \<le> k)"
      unfolding partition_inv_def by blast
    have other: "pools s' (bm_data ?bm ! k) = pools s (bm_data ?bm ! k)"
      if "k < length (bm_data ?bm)" "k \<noteq> ?f" for k
      using child_slot[OF bi that(1)] that(2) keep by blast
    have new: "pools s' (bm_data ?bm ! ?f) = Some tm'" by (simp add: h1 child_def)
    have ne': "\<not> token_manager_s_is_empty tm'"
      by (simp add: token_manager_s_is_empty_def tm'_def)
    have fe: "?f \<le> e"
    proof (rule ccontr)
      assume "\<not> ?f \<le> e"
      then have el: "e < ?f" "e < length (bm_data ?bm)" using lt by simp_all
      from e(2)[OF el(2)] obtain t where t: "pools s (bm_data ?bm ! e) = Some t"
        "token_manager_s_is_empty t" by auto
      from sd(4)[OF bi el(2)] t(1) have ti: "tm_inv t" by (auto elim!: slot_invD)
      have "token_manager_s_is_full t" using partition_invD_full[OF pold el(2) t(1)] el(1) by simp
      then have "stack_index t = tm_cap t" using tm_inv_full_iff[OF ti] by simp
      with tm_cap_pos[OF ti] t(2) show False by (simp add: token_manager_s_is_empty_def)
    qed
    define e' where "e' = (if e = ?f then Suc ?f else e)"
    have e'le: "e' \<le> length (bm_data ?bm)" using e(1) lt by (simp add: e'_def)
    show ?thesis
      unfolding True nth1 partition_inv_def
    proof (intro conjI)
      show "free_index ?bm' \<le> length (bm_data ?bm')" using lt by simp
      show "\<forall>k<length (bm_data ?bm'). \<exists>t. pools s' (bm_data ?bm' ! k) = Some t \<and>
                (token_manager_s_is_full t \<longleftrightarrow> k < free_index ?bm')"
      proof (intro allI impI)
        fix k assume k: "k < length (bm_data ?bm')"
        show "\<exists>t. pools s' (bm_data ?bm' ! k) = Some t \<and>
                (token_manager_s_is_full t \<longleftrightarrow> k < free_index ?bm')"
        proof (cases "k = ?f")
          case True
          with new show ?thesis by simp
        next
          case False
          from k have k': "k < length (bm_data ?bm)" by simp
          from sd(4)[OF bi k'] obtain t where t: "pools s (bm_data ?bm ! k) = Some t"
            by (rule slot_invD)
          from partition_invD_full[OF pold k' t] False other[OF k' False] t
          show ?thesis by auto
        qed
      qed
      show "\<exists>e\<le>length (bm_data ?bm'). \<forall>k<length (bm_data ?bm').
                \<exists>t. pools s' (bm_data ?bm' ! k) = Some t \<and> (token_manager_s_is_empty t \<longleftrightarrow> e \<le> k)"
      proof (intro exI[of _ e'] conjI allI impI)
        show "e' \<le> length (bm_data ?bm')" using e'le by simp
        fix k assume k: "k < length (bm_data ?bm')"
        show "\<exists>t. pools s' (bm_data ?bm' ! k) = Some t \<and> (token_manager_s_is_empty t \<longleftrightarrow> e' \<le> k)"
        proof (cases "k = ?f")
          case True
          with new ne' fe show ?thesis by (simp add: e'_def)
        next
          case False
          from k have k': "k < length (bm_data ?bm)" by simp
          from e(2)[OF k'] obtain t where t: "pools s (bm_data ?bm ! k) = Some t"
            "token_manager_s_is_empty t \<longleftrightarrow> e \<le> k" by blast
          have "e \<le> k \<longleftrightarrow> e' \<le> k" using False fe by (auto simp: e'_def)
          with t other[OF k' False] show ?thesis by simp
        qed
      qed
    qed
  qed
  have al1: "aligned_inv s'"
    using al unfolding aligned_inv_def by (simp add: len1 ba bd a1 p1)
  have lv1: "live_inv s' (insert ret L)"
    unfolding live_inv_def
  proof
    fix p assume "p \<in> insert ret L"
    then consider "p = ret" | "p \<in> L" by blast
    then show "p \<in> dom (external_btree s') \<or> (\<exists>a t. pools s' a = Some t \<and> live_block a t p)"
    proof cases
      case 1
      have "pools s' child = Some tm'" by (simp add: h1)
      with lr 1 show ?thesis by blast
    next
      case 2
      with lv consider "p \<in> dom (external_btree s)" | b t where "pools s b = Some t" "live_block b t p"
        unfolding live_inv_def by blast
      then show ?thesis
      proof cases
        case 1
        then show ?thesis by (simp add: e1)
      next
        case 2
        show ?thesis
        proof (cases "b = child")
          case True
          with 2 tm_c have "live_block child tm' p" using keepl by simp
          moreover have "pools s' child = Some tm'" by (simp add: h1)
          ultimately show ?thesis by blast
        next
          case False
          with 2 keep[OF False] show ?thesis by auto
        qed
      qed
    qed
  qed
  show "tbman_inv s' (insert ret L)"
    using st1 part1 al1 lv1 unfolding tbman_inv_def by (simp add: len1)
  show "ret \<notin> L"
  proof
    assume "ret \<in> L"
    with lv consider "ret \<in> dom (external_btree s)" | b t where "pools s b = Some t" "live_block b t ret"
      unfolding live_inv_def by blast
    then show False
    proof cases
      case 1
      have "pools s' child = Some tm'" by (simp add: h1)
      from live_block_not_external[OF st1 this lr] 1 show False by (simp add: e1)
    next
      case 2
      have c': "pools s' child = Some tm'" by (simp add: h1)
      show False
      proof (cases "b = child")
        case True
        with 2 tm_c nl show False by simp
      next
        case False
        with 2(1) have "pools s' b = Some t" by (simp add: keep)
        from live_block_pool_unique[OF st1 this 2(2) c' lr] False show False by simp
      qed
    qed
  qed
qed

lemma block_manager_s_alloc_Inr:
  assumes "block_manager_s_alloc bi pf s = Inr (p, s')"
  obtains s1 tm tm' where "bi < length (data s)"
    "(if free_index (data s ! bi) = length (bm_data (data s ! bi))
      then block_manager_s_grow bi pf s else Inr s) = Inr s1"
    "free_index (data s1 ! bi) < length (bm_data (data s1 ! bi))"
    "pools s1 (bm_data (data s1 ! bi) ! free_index (data s1 ! bi)) = Some tm"
    "token_manager_s_alloc (bm_data (data s1 ! bi) ! free_index (data s1 ! bi)) tm = Inr (p, tm')"
    "s' = s1\<lparr> pools := (pools s1)(bm_data (data s1 ! bi) ! free_index (data s1 ! bi) \<mapsto> tm'),
              data := (data s1)[bi := (data s1 ! bi)\<lparr>free_index :=
                          (if token_manager_s_is_full tm' then free_index (data s1 ! bi) + 1
                           else free_index (data s1 ! bi))\<rparr>] \<rparr>"
proof -
  from assms have bi: "bi < length (data s)"
    unfolding block_manager_s_alloc_def by (auto split: if_splits)
  from assms bi obtain s1 where g: "(if free_index (data s ! bi) = length (bm_data (data s ! bi))
      then block_manager_s_grow bi pf s else Inr s) = Inr s1"
    unfolding block_manager_s_alloc_def by (auto split: sum.splits)
  from assms bi have r: "(let bm = data s1 ! bi in
          if length (bm_data bm) \<le> free_index bm then Inl Undefined
          else let child = bm_data bm ! free_index bm in
            case pools s1 child of
              None \<Rightarrow> Inl Undefined
            | Some tm \<Rightarrow>
                (case token_manager_s_alloc child tm of
                   Inl e \<Rightarrow> Inl e
                 | Inr (ret, tm') \<Rightarrow>
                     Inr (ret, s1\<lparr> pools := (pools s1)(child \<mapsto> tm'),
                        data := (data s1)[bi := bm\<lparr>free_index :=
                          (if token_manager_s_is_full tm' then free_index bm + 1
                           else free_index bm)\<rparr>] \<rparr>))) = Inr (p, s')"
    unfolding block_manager_s_alloc_def by (simp only: g sum.case not_le[symmetric] if_False) 
  then have lt: "free_index (data s1 ! bi) < length (bm_data (data s1 ! bi))"
    unfolding Let_def by (auto split: if_splits)
  from r lt obtain tm where tm: "pools s1 (bm_data (data s1 ! bi) ! free_index (data s1 ! bi)) = Some tm"
    unfolding Let_def by (auto split: option.splits)
  from r lt tm obtain tm' where
    "token_manager_s_alloc (bm_data (data s1 ! bi) ! free_index (data s1 ! bi)) tm = Inr (p, tm')"
    "s' = s1\<lparr> pools := (pools s1)(bm_data (data s1 ! bi) ! free_index (data s1 ! bi) \<mapsto> tm'),
              data := (data s1)[bi := (data s1 ! bi)\<lparr>free_index :=
                          (if token_manager_s_is_full tm' then free_index (data s1 ! bi) + 1
                           else free_index (data s1 ! bi))\<rparr>] \<rparr>"
    unfolding Let_def by (auto split: sum.splits prod.splits)
  with bi g lt tm show thesis by (rule that)
qed

lemma block_manager_s_alloc_inv:
  assumes inv: "tbman_inv s L" and fit: "stack_sizes_fit s" and pf: "platform_ok s pf"
    and bi: "bi < length (data s)"
    and r: "block_manager_s_alloc bi pf s = Inr (p, s')"
  shows "tbman_inv s' (insert p L)" and "p \<notin> L"
    and "length (data s') = length (data s)"
    and "external_btree s' = external_btree s"
    and "pool_size s' = pool_size s" and "block_size_array s' = block_size_array s"
    and "max_block_size s' = max_block_size s"
    and "\<exists>a tm. pools s' a = Some tm \<and> live_block a tm p \<and> tm_block_size tm = block_size_array s ! bi"
    and "\<And>a tm q. pools s a = Some tm \<Longrightarrow> live_block a tm q \<Longrightarrow>
            \<exists>tm'. pools s' a = Some tm' \<and> live_block a tm' q"
proof -
  from r obtain s1 tm tm0 where bi0: "bi < length (data s)"
    and g: "(if free_index (data s ! bi) = length (bm_data (data s ! bi))
      then block_manager_s_grow bi pf s else Inr s) = Inr s1"
    and lt: "free_index (data s1 ! bi) < length (bm_data (data s1 ! bi))"
    and tm: "pools s1 (bm_data (data s1 ! bi) ! free_index (data s1 ! bi)) = Some tm"
    and ta: "token_manager_s_alloc (bm_data (data s1 ! bi) ! free_index (data s1 ! bi)) tm = Inr (p, tm0)"
    and s'0: "s' = s1\<lparr> pools := (pools s1)(bm_data (data s1 ! bi) ! free_index (data s1 ! bi) \<mapsto> tm0),
              data := (data s1)[bi := (data s1 ! bi)\<lparr>free_index :=
                          (if token_manager_s_is_full tm0 then free_index (data s1 ! bi) + 1
                           else free_index (data s1 ! bi))\<rparr>] \<rparr>"
    by (rule block_manager_s_alloc_Inr)
  have s1f: "tbman_inv s1 L \<and> length (data s1) = length (data s) \<and>
     external_btree s1 = external_btree s \<and> pool_size s1 = pool_size s \<and>
     block_size_array s1 = block_size_array s \<and> max_block_size s1 = max_block_size s \<and>
     (\<forall>a. a \<in> dom (pools s) \<longrightarrow> pools s1 a = pools s a)"
  proof (cases "free_index (data s ! bi) = length (bm_data (data s ! bi))")
    case True
    with g have gr: "block_manager_s_grow bi pf s = Inr s1" by simp
    from block_manager_s_grow_inv[OF inv fit pf bi True gr] show ?thesis by simp
  next
    case False
    with g have "s1 = s" by simp
    with inv show ?thesis by simp
  qed
  then have inv1: "tbman_inv s1 L" and len1: "length (data s1) = length (data s)"
    and keep1: "\<And>a. a \<in> dom (pools s) \<Longrightarrow> pools s1 a = pools s a" by simp_all
  have bi1: "bi < length (data s1)" using bi len1 by simp
  let ?bm = "data s1 ! bi"
  note tk = tm_take_inv[OF inv1 bi1 lt tm]
  from ta tk(1) have p: "p = bm_data ?bm ! free_index ?bm + token_stack tm (stack_index tm) * tm_block_size tm"
    and tm0: "tm0 = tm\<lparr>stack_index := Suc (stack_index tm)\<rparr>" by simp_all
  note s' = s'0[unfolded tm0]
  show "tbman_inv s' (insert p L)" using tk(2) unfolding p s' .
  show "p \<notin> L" using tk(3) unfolding p .
  show "length (data s') = length (data s)" using s1f by (simp add: s')
  show "external_btree s' = external_btree s" using s1f by (simp add: s')
  show "pool_size s' = pool_size s" using s1f by (simp add: s')
  show "block_size_array s' = block_size_array s" using s1f by (simp add: s')
  show "max_block_size s' = max_block_size s" using s1f by (simp add: s')
  have st1: "struct_inv s1" using inv1 by (simp add: tbman_inv_def)
  have "bm_block_size ?bm = block_size_array s ! bi"
    using struct_invD(3)[OF st1 bi1] s1f by simp
  with tk(4,5) show "\<exists>a tm. pools s' a = Some tm \<and> live_block a tm p \<and> tm_block_size tm = block_size_array s ! bi"
    unfolding p by (intro exI[of _ "bm_data ?bm ! free_index ?bm"] exI[of _ "tm\<lparr>stack_index := Suc (stack_index tm)\<rparr>"])
      (simp add: s')
  show "\<exists>tm'. pools s' a = Some tm' \<and> live_block a tm' q"
    if "pools s a = Some t" "live_block a t q" for a t q
  proof -
    have t1: "pools s1 a = Some t" using keep1[of a] that(1) by auto
    show ?thesis
    proof (cases "a = bm_data ?bm ! free_index ?bm")
      case True
      with t1 tm have "t = tm" by simp
      have st1': "struct_inv s1" using inv1 by (simp add: tbman_inv_def)
      have ti: "tm_inv tm" by (rule pool_tm(2)[OF st1' tm])
      have "\<not> token_manager_s_is_full tm"
        using ta by (auto simp: token_manager_s_alloc_def split: if_splits)
      from tm_alloc_ok(5)[OF ti this, of a q] that(2) \<open>t = tm\<close>
      have "live_block a (tm\<lparr>stack_index := Suc (stack_index tm)\<rparr>) q" by simp
      then show ?thesis using True by (simp add: s')
    next
      case False
      with t1 that(2) show ?thesis by (simp add: s')
    qed
  qed
qed

text \<open>
  Exchanging the slots \<open>x\<close> and \<open>y\<close> of a block manager, as both callbacks do: the
  vector entries are exchanged and the two headers get their new slot numbers.
\<close>

lemma swap_slots_inv:
  fixes s s1 :: tbman_s
  assumes st: "struct_inv s" and bi: "bi < length (data s)"
    and x: "x < length (bm_data (data s ! bi))" and y: "y < length (bm_data (data s ! bi))"
    and tx: "pools s (bm_data (data s ! bi) ! x) = Some tx"
    and ty: "((pools s)(bm_data (data s ! bi) ! x \<mapsto> tx\<lparr>parent_index := y\<rparr>))
               (bm_data (data s ! bi) ! y) = Some ty"
    and h1: "pools s1 = ((pools s)(bm_data (data s ! bi) ! x \<mapsto> tx\<lparr>parent_index := y\<rparr>))
               (bm_data (data s ! bi) ! y \<mapsto> ty\<lparr>parent_index := x\<rparr>)"
    and d1: "data s1 = (data s)[bi := bm1]"
    and bm1: "bm_block_size bm1 = bm_block_size (data s ! bi)"
      "bm_pool_size bm1 = bm_pool_size (data s ! bi)"
      "length (bm_data bm1) = length (bm_data (data s ! bi))"
      "bm_data bm1 ! x = bm_data (data s ! bi) ! y"
      "bm_data bm1 ! y = bm_data (data s ! bi) ! x"
      "\<And>k. k < length (bm_data (data s ! bi)) \<Longrightarrow> k \<noteq> x \<Longrightarrow> k \<noteq> y \<Longrightarrow>
          bm_data bm1 ! k = bm_data (data s ! bi) ! k"
    and rest: "pool_size s1 = pool_size s" "block_size_array s1 = block_size_array s"
      "internal_btree s1 = internal_btree s" "external_btree s1 = external_btree s"
  shows "struct_inv s1"
    and "\<And>k. k < length (bm_data (data s ! bi)) \<Longrightarrow>
           \<exists>t. pools s (bm_data (data s ! bi) ! (if k = x then y else if k = y then x else k)) = Some t
              \<and> pools s1 (bm_data bm1 ! k) = Some (t\<lparr>parent_index := k\<rparr>)"
    and "\<And>a t. pools s a = Some t \<Longrightarrow> \<exists>k. pools s1 a = Some (t\<lparr>parent_index := k\<rparr>)"
    and "\<And>a. a \<noteq> bm_data (data s ! bi) ! x \<Longrightarrow> a \<noteq> bm_data (data s ! bi) ! y \<Longrightarrow>
           pools s1 a = pools s a"
    and "dom (pools s1) = dom (pools s)"
proof -
  let ?bm = "data s ! bi" and ?P = "pool_size s"
  let ?d = "bm_data ?bm" and ?d1 = "bm_data bm1"
  let ?ax = "?d ! x" and ?ay = "?d ! y"
  let ?sw = "\<lambda>k. if k = x then y else if k = y then x else k"
  note sd = struct_invD[OF st]
  have len1: "length (data s1) = length (data s)" by (simp add: d1)
  have nth1: "data s1 ! bi = bm1" using bi by (simp add: d1)
  have nth1': "\<And>bj. bj \<noteq> bi \<Longrightarrow> data s1 ! bj = data s ! bj" by (simp add: d1)
  have axy: "?ax = ?ay \<longleftrightarrow> x = y"
    using slot_unique[OF st bi x bi y] by auto
  obtain ty0 where ty0: "pools s ?ay = Some ty0"
    using sd(4)[OF bi y] by (auto elim!: slot_invD)
  have pix: "parent_index tx = x" using sd(4)[OF bi x] tx by (auto elim!: slot_invD)
  have piy: "parent_index ty0 = y" using sd(4)[OF bi y] ty0 by (auto elim!: slot_invD)
  have ty_eq: "ty\<lparr>parent_index := x\<rparr> = ty0\<lparr>parent_index := x\<rparr>"
  proof (cases "x = y")
    case True
    with ty tx ty0 have "ty = tx\<lparr>parent_index := y\<rparr>" "ty0 = tx" by simp_all
    then show ?thesis by simp
  next
    case False
    with ty axy ty0 show ?thesis by simp
  qed
  have hx: "pools s1 ?ax = Some (tx\<lparr>parent_index := (if x = y then x else y)\<rparr>)"
  proof (cases "x = y")
    case True
    with ty tx have "ty = tx\<lparr>parent_index := y\<rparr>" by simp
    with True show ?thesis by (simp add: h1)
  next
    case False
    with axy show ?thesis by (simp add: h1)
  qed
  have hy: "pools s1 ?ay = Some (ty0\<lparr>parent_index := x\<rparr>)"
    by (simp add: h1 ty_eq)
  show keep: "pools s1 a = pools s a" if "a \<noteq> ?ax" "a \<noteq> ?ay" for a
    using that by (simp add: h1)
  show corr: "\<exists>t. pools s (?d ! ?sw k) = Some t \<and> pools s1 (?d1 ! k) = Some (t\<lparr>parent_index := k\<rparr>)"
    if k: "k < length ?d" for k
  proof -
    consider "k = x" | "k = y" "k \<noteq> x" | "k \<noteq> x" "k \<noteq> y" by blast
    then show ?thesis
    proof cases
      case 1
      then show ?thesis using ty0 hy bm1(4) by simp
    next
      case 2
      then show ?thesis using tx hx bm1(5) by simp
    next
      case 3
      from sd(4)[OF bi k] obtain t where t: "pools s (?d ! k) = Some t" "parent_index t = k"
        by (rule slot_invD)
      have "?d ! k \<noteq> ?ax" "?d ! k \<noteq> ?ay"
        using slot_unique[OF st bi k bi x] slot_unique[OF st bi k bi y] 3 by auto
      then have "pools s1 (?d ! k) = Some t" using keep t(1) by simp
      moreover have "t\<lparr>parent_index := k\<rparr> = t" using t(2) by simp
      ultimately show ?thesis using 3 t(1) bm1(6)[OF k 3] by simp
    qed
  qed
  show content: "\<exists>k. pools s1 a = Some (t\<lparr>parent_index := k\<rparr>)" if "pools s a = Some t" for a t
  proof -
    consider "a = ?ax" | "a = ?ay" | "a \<noteq> ?ax" "a \<noteq> ?ay" by blast
    then show ?thesis
    proof cases
      case 1
      with that tx hx show ?thesis by auto
    next
      case 2
      with that ty0 hy show ?thesis by auto
    next
      case 3
      from keep[OF 3] that have "pools s1 a = Some (t\<lparr>parent_index := parent_index t\<rparr>)" by simp
      then show ?thesis by blast
    qed
  qed
  show dom1: "dom (pools s1) = dom (pools s)"
    using tx ty0 by (auto simp: h1)
  have slots: "slot_inv (pools s1) ?P bj (data s1 ! bj) k"
    if bj: "bj < length (data s)" and k: "k < length (bm_data (data s1 ! bj))" for bj k
  proof (cases "bj = bi")
    case True
    from k True have k': "k < length ?d" by (simp add: nth1 bm1(3))
    define j where "j = ?sw k"
    from corr[OF k'] obtain t where t: "pools s (?d ! j) = Some t"
      "pools s1 (?d1 ! k) = Some (t\<lparr>parent_index := k\<rparr>)" unfolding j_def by blast
    have swk: "j < length ?d" using k' x y by (simp add: j_def)
    have same: "?d1 ! k = ?d ! j"
      using bm1(4,5) bm1(6)[OF k'] by (auto simp: j_def)
    from sd(4)[OF bi swk] t(1) have "parent t = Some bi" "tm_pool_size t = ?P"
      "tm_block_size t = bm_block_size ?bm" "tm_inv t" "tm_aligned t \<longleftrightarrow> ?d ! j AND (?P - 1) = 0"
      by (auto elim!: slot_invD)
    then show ?thesis unfolding True nth1
      using t(2) same by (intro slot_invI[where tm = "t\<lparr>parent_index := k\<rparr>"]) (simp_all add: bm1)
  next
    case False
    from k False have k': "k < length (bm_data (data s ! bj))" by (simp add: nth1')
    have "bm_data (data s ! bj) ! k \<noteq> ?ax" "bm_data (data s ! bj) ! k \<noteq> ?ay"
      using slot_unique[OF st bj k' bi x] slot_unique[OF st bj k' bi y] False by auto
    then have "pools s1 (bm_data (data s ! bj) ! k) = pools s (bm_data (data s ! bj) ! k)"
      by (rule keep)
    then have "slot_inv (pools s1) ?P bj (data s1 ! bj) k = slot_inv (pools s) ?P bj (data s ! bj) k"
      using False by (intro slot_inv_cong) (simp_all add: nth1')
    then show ?thesis using sd(4)[OF bj k'] by simp
  qed
  have owner: "\<exists>bj<length (data s1). parent t = Some bj \<and>
           parent_index t < length (bm_data (data s1 ! bj)) \<and>
           bm_data (data s1 ! bj) ! parent_index t = b" if "pools s1 b = Some t" for b t
  proof -
    consider "b = ?ax" | "b = ?ay" "b \<noteq> ?ax" | "b \<noteq> ?ax" "b \<noteq> ?ay" by blast
    then show ?thesis
    proof cases
      case 1
      with that hx have t: "t = tx\<lparr>parent_index := (if x = y then x else y)\<rparr>" by simp
      have "parent tx = Some bi" using sd(4)[OF bi x] tx by (auto elim!: slot_invD)
      then show ?thesis using bi x y 1 bm1(3,4,5)
        by (intro exI[of _ bi]) (auto simp: t len1 nth1)
    next
      case 2
      with that hy have t: "t = ty0\<lparr>parent_index := x\<rparr>" by simp
      have "parent ty0 = Some bi" using sd(4)[OF bi y] ty0 by (auto elim!: slot_invD)
      then show ?thesis using bi x 2 bm1(3,4)
        by (intro exI[of _ bi]) (auto simp: t len1 nth1)
    next
      case 3
      with that keep have ps: "pools s b = Some t" by simp
      from sd(5)[OF ps] obtain bj where bj: "bj < length (data s)" "parent t = Some bj"
        "parent_index t < length (bm_data (data s ! bj))" "bm_data (data s ! bj) ! parent_index t = b"
        by blast
      show ?thesis
      proof (cases "bj = bi")
        case False
        with bj show ?thesis by (intro exI[of _ bj]) (simp add: len1 nth1')
      next
        case True
        with bj 3 have "parent_index t \<noteq> x" "parent_index t \<noteq> y" by auto
        with bm1(6)[of "parent_index t"] bj True show ?thesis
          by (intro exI[of _ bi]) (simp add: len1 nth1 bm1(3))
      qed
    qed
  qed
  show "struct_inv s1"
    unfolding struct_inv_def
  proof (intro conjI allI impI ballI)
    show "length (data s1) = length (block_size_array s1)" using sd(1) by (simp add: len1 rest)
    show "bm_pool_size (data s1 ! bj) = pool_size s1" if "bj < length (data s1)" for bj
      using that sd(2)[of bj] by (cases "bj = bi") (simp_all add: len1 nth1 nth1' rest bm1)
    show "bm_block_size (data s1 ! bj) = block_size_array s1 ! bj" if "bj < length (data s1)" for bj
      using that sd(3)[of bj] by (cases "bj = bi") (simp_all add: len1 nth1 nth1' rest bm1)
    show "slot_inv (pools s1) (pool_size s1) bj (data s1 ! bj) k"
      if "bj < length (data s1)" "k < length (bm_data (data s1 ! bj))" for bj k
      using slots[of bj k] that by (simp add: len1 rest)
    show "\<exists>bj<length (data s1). parent t = Some bj \<and>
           parent_index t < length (bm_data (data s1 ! bj)) \<and>
           bm_data (data s1 ! bj) ! parent_index t = b" if "pools s1 b = Some t" for b t
      using owner[OF that] .
    show "finite (dom (pools s1))" using sd(6) by (simp add: dom1)
    show "internal_btree s1 = dom (pools s1)" using sd(7) by (simp add: dom1 rest)
    show "0 \<notin> dom (pools s1)" using sd(8) by (simp add: dom1)
    show "b + pool_size s1 \<le> c \<or> c + pool_size s1 \<le> b"
      if "b \<in> dom (pools s1) \<and> c \<in> dom (pools s1) \<and> b \<noteq> c" for b c
      using that sd(9)[of b c] by (simp add: dom1 rest)
    show "b + pool_size s1 \<le> 2 ^ 64" if "b \<in> dom (pools s1)" for b
      using that sd(10)[of b] by (simp add: dom1 rest)
    fix e n assume en: "external_btree s1 e = Some n"
    then have en': "external_btree s e = Some n" by (simp add: rest)
    from sd(11)[OF en'] show "0 < n" "e \<noteq> 0" "e + n \<le> 2 ^ 64" by simp_all
    fix b assume "b \<in> dom (pools s1)"
    then show "e + n \<le> b \<or> b + pool_size s1 \<le> e"
      using sd(11)[OF en'] by (simp add: dom1 rest)
  qed
qed

lemma swap_slots_simps:
  "pool_size (swap_slots bi x y s) = pool_size s"
  "block_size_array (swap_slots bi x y s) = block_size_array s"
  "internal_btree (swap_slots bi x y s) = internal_btree s"
  "external_btree (swap_slots bi x y s) = external_btree s"
  "max_block_size (swap_slots bi x y s) = max_block_size s"
  "aligned (swap_slots bi x y s) = aligned s"
  "length (data (swap_slots bi x y s)) = length (data s)"
  "bj \<noteq> bi \<Longrightarrow> data (swap_slots bi x y s) ! bj = data s ! bj"
  by (simp_all add: swap_slots_def Let_def)

lemma swap_slots_bm:
  assumes "bi < length (data s)"
  shows "data (swap_slots bi x y s) ! bi =
           (data s ! bi)\<lparr>bm_data := (bm_data (data s ! bi))[y := bm_data (data s ! bi) ! x,
                                                              x := bm_data (data s ! bi) ! y]\<rparr>"
  using assms by (simp add: swap_slots_def Let_def)

lemma swap_slots_struct:
  fixes s :: tbman_s
  assumes st: "struct_inv s" and bi: "bi < length (data s)"
    and x: "x < length (bm_data (data s ! bi))" and y: "y < length (bm_data (data s ! bi))"
  defines "s1 \<equiv> swap_slots bi x y s"
  shows "struct_inv s1"
    and "\<And>k. k < length (bm_data (data s ! bi)) \<Longrightarrow>
           \<exists>t. pools s (bm_data (data s ! bi) ! (if k = x then y else if k = y then x else k)) = Some t
              \<and> pools s1 (bm_data (data s1 ! bi) ! k) = Some (t\<lparr>parent_index := k\<rparr>)"
    and "\<And>a t. pools s a = Some t \<Longrightarrow> \<exists>k. pools s1 a = Some (t\<lparr>parent_index := k\<rparr>)"
    and "\<And>a. a \<noteq> bm_data (data s ! bi) ! x \<Longrightarrow> a \<noteq> bm_data (data s ! bi) ! y \<Longrightarrow>
           pools s1 a = pools s a"
    and "dom (pools s1) = dom (pools s)"
    and "length (bm_data (data s1 ! bi)) = length (bm_data (data s ! bi))"
    and "bm_data (data s1 ! bi) ! x = bm_data (data s ! bi) ! y"
    and "bm_data (data s1 ! bi) ! y = bm_data (data s ! bi) ! x"
    and "\<And>k. k < length (bm_data (data s ! bi)) \<Longrightarrow> k \<noteq> x \<Longrightarrow> k \<noteq> y \<Longrightarrow>
          bm_data (data s1 ! bi) ! k = bm_data (data s ! bi) ! k"
proof -
  let ?bm = "data s ! bi"
  let ?d = "bm_data ?bm"
  let ?bm1 = "?bm\<lparr>bm_data := ?d[y := ?d ! x, x := ?d ! y]\<rparr>"
  note sd = struct_invD[OF st]
  obtain tx where tx: "pools s (?d ! x) = Some tx" using sd(4)[OF bi x] by (auto elim!: slot_invD)
  obtain ty0 where ty0: "pools s (?d ! y) = Some ty0" using sd(4)[OF bi y] by (auto elim!: slot_invD)
  define ty where "ty = the (((pools s)(?d ! x \<mapsto> tx\<lparr>parent_index := y\<rparr>)) (?d ! y))"
  have ty: "((pools s)(?d ! x \<mapsto> tx\<lparr>parent_index := y\<rparr>)) (?d ! y) = Some ty"
    using ty0 by (simp add: ty_def)
  have h1: "pools s1 = ((pools s)(?d ! x \<mapsto> tx\<lparr>parent_index := y\<rparr>))(?d ! y \<mapsto> ty\<lparr>parent_index := x\<rparr>)"
    using tx by (simp add: s1_def swap_slots_def Let_def ty_def)
  have d1: "data s1 = (data s)[bi := ?bm1]" by (simp add: s1_def swap_slots_def Let_def)
  have nth1: "data s1 ! bi = ?bm1" using bi by (simp add: d1)
  have b4: "bm_data ?bm1 ! x = ?d ! y" using x by simp
  have b5: "bm_data ?bm1 ! y = ?d ! x" using x y by (cases "x = y") simp_all
  have b6: "bm_data ?bm1 ! k = ?d ! k" if "k < length ?d" "k \<noteq> x" "k \<noteq> y" for k
    using that by simp
  note sw = swap_slots_inv[OF st bi x y tx ty h1 d1 _ _ _ b4 b5 b6, simplified]
  have rest: "pool_size s1 = pool_size s" "block_size_array s1 = block_size_array s"
      "internal_btree s1 = internal_btree s" "external_btree s1 = external_btree s"
    by (simp_all add: s1_def swap_slots_simps)
  show "struct_inv s1" by (rule sw(1)[OF rest])
  show "\<exists>t. pools s (?d ! (if k = x then y else if k = y then x else k)) = Some t
              \<and> pools s1 (bm_data (data s1 ! bi) ! k) = Some (t\<lparr>parent_index := k\<rparr>)"
    if "k < length ?d" for k
    using sw(2)[OF rest that] by (simp add: nth1)
  show "\<exists>k. pools s1 a = Some (t\<lparr>parent_index := k\<rparr>)" if "pools s a = Some t" for a t
    using sw(3)[OF rest that] .
  show "pools s1 a = pools s a" if "a \<noteq> ?d ! x" "a \<noteq> ?d ! y" for a
    using sw(4)[OF rest that] .
  show "dom (pools s1) = dom (pools s)" using sw(5)[OF rest] .
  show "length (bm_data (data s1 ! bi)) = length ?d" by (simp add: nth1)
  show "bm_data (data s1 ! bi) ! x = ?d ! y" unfolding nth1 by (rule b4)
  show "bm_data (data s1 ! bi) ! y = ?d ! x" unfolding nth1 by (rule b5)
  show "bm_data (data s1 ! bi) ! k = ?d ! k" if "k < length ?d" "k \<noteq> x" "k \<noteq> y" for k
    unfolding nth1 using that by (rule b6)
qed
section \<open>The free operation preserves the invariants\<close>

lemma is_empty_parent_upd [simp]:
  "token_manager_s_is_empty (tm\<lparr>parent_index := k\<rparr>) = token_manager_s_is_empty tm"
  by (simp add: token_manager_s_is_empty_def)

lemma set_free_index_simps:
  "pools (set_free_index bi f s) = pools s"
  "pool_size (set_free_index bi f s) = pool_size s"
  "block_size_array (set_free_index bi f s) = block_size_array s"
  "internal_btree (set_free_index bi f s) = internal_btree s"
  "external_btree (set_free_index bi f s) = external_btree s"
  "max_block_size (set_free_index bi f s) = max_block_size s"
  "aligned (set_free_index bi f s) = aligned s"
  "length (data (set_free_index bi f s)) = length (data s)"
  "bj \<noteq> bi \<Longrightarrow> data (set_free_index bi f s) ! bj = data s ! bj"
  "bi < length (data s) \<Longrightarrow> data (set_free_index bi f s) ! bi = (data s ! bi)\<lparr>free_index := f\<rparr>"
  by (simp_all add: set_free_index_def)

lemma set_free_index_fields:
  assumes "bj < length (data s)"
  shows "bm_data (data (set_free_index bi f s) ! bj) = bm_data (data s ! bj)"
    and "bm_pool_size (data (set_free_index bi f s) ! bj) = bm_pool_size (data s ! bj)"
    and "bm_block_size (data (set_free_index bi f s) ! bj) = bm_block_size (data s ! bj)"
    and "bm_aligned (data (set_free_index bi f s) ! bj) = bm_aligned (data s ! bj)"
  using assms by (cases "bj = bi"; simp add: set_free_index_def)+

lemma set_free_index_struct:
  assumes "struct_inv s"
  shows "struct_inv (set_free_index bi f s)"
  using assms unfolding struct_inv_def slot_inv_def
  by (simp add: set_free_index_simps set_free_index_fields cong: conj_cong)

lemma set_free_index_aligned:
  assumes "aligned_inv s"
  shows "aligned_inv (set_free_index bi f s)"
  using assms unfolding aligned_inv_def
  by (simp add: set_free_index_simps set_free_index_fields)

lemma swap_slots_aligned:
  assumes st: "struct_inv s" and bi: "bi < length (data s)"
    and x: "x < length (bm_data (data s ! bi))" and y: "y < length (bm_data (data s ! bi))"
    and al: "aligned_inv s"
  shows "aligned_inv (swap_slots bi x y s)"
proof -
  let ?s1 = "swap_slots bi x y s"
  let ?d = "bm_data (data s ! bi)"
  have fl: "bm_aligned (data ?s1 ! bj) = bm_aligned (data s ! bj)" if "bj < length (data s)" for bj
    using that bi by (cases "bj = bi") (simp_all add: swap_slots_simps swap_slots_bm)
  have ent: "bm_data (data ?s1 ! bj) ! k AND (pool_size s - 1) = 0"
    if bj: "bj < length (data s)" and a: "bm_aligned (data s ! bj)"
      and k: "k < length (bm_data (data ?s1 ! bj))" for bj k
  proof (cases "bj = bi")
    case False
    with al bj a k show ?thesis by (simp add: swap_slots_simps aligned_inv_def)
  next
    case True
    have k': "k < length ?d" using k True bi by (simp add: swap_slots_bm)
    from al bi a True have all: "\<And>j. j < length ?d \<Longrightarrow> ?d ! j AND (pool_size s - 1) = 0"
      by (simp add: aligned_inv_def)
    have "bm_data (data ?s1 ! bi) ! k = ?d ! (if k = x then y else if k = y then x else k)"
      using swap_slots_struct(7,8)[OF st bi x y] swap_slots_struct(9)[OF st bi x y k'] by auto
    with all[of "if k = x then y else if k = y then x else k"] x y k' True show ?thesis by auto
  qed
  show ?thesis unfolding aligned_inv_def using al fl ent
    by (simp add: swap_slots_simps aligned_inv_def)
qed

lemma swap_slots_live:
  assumes st: "struct_inv s" and bi: "bi < length (data s)"
    and x: "x < length (bm_data (data s ! bi))" and y: "y < length (bm_data (data s ! bi))"
    and lv: "live_inv s L"
  shows "live_inv (swap_slots bi x y s) L"
  unfolding live_inv_def
proof
  fix p assume "p \<in> L"
  with lv have "p \<in> dom (external_btree s) \<or> (\<exists>a tm. pools s a = Some tm \<and> live_block a tm p)"
    by (simp add: live_inv_def)
  then show "p \<in> dom (external_btree (swap_slots bi x y s)) \<or>
     (\<exists>a tm. pools (swap_slots bi x y s) a = Some tm \<and> live_block a tm p)"
  proof
    assume "p \<in> dom (external_btree s)"
    then show ?thesis by (simp add: swap_slots_simps)
  next
    assume "\<exists>a tm. pools s a = Some tm \<and> live_block a tm p"
    then obtain a tm where a: "pools s a = Some tm" "live_block a tm p" by blast
    from swap_slots_struct(3)[OF st bi x y a(1)] obtain k where
      "pools (swap_slots bi x y s) a = Some (tm\<lparr>parent_index := k\<rparr>)" by blast
    with a(2) have "\<exists>tm'. pools (swap_slots bi x y s) a = Some tm' \<and> live_block a tm' p" by simp
    then show ?thesis by blast
  qed
qed

lemma swap_slots_other:
  assumes st: "struct_inv s" and bi: "bi < length (data s)"
    and x: "x < length (bm_data (data s ! bi))" and y: "y < length (bm_data (data s ! bi))"
    and bj: "bj < length (data s)" "bj \<noteq> bi"
  shows "partition_inv (pools (swap_slots bi x y s)) (data (swap_slots bi x y s) ! bj)
           = partition_inv (pools s) (data s ! bj)"
proof (rule partition_inv_cong)
  show "bm_data (data (swap_slots bi x y s) ! bj) = bm_data (data s ! bj)"
    using bj by (simp add: swap_slots_simps)
  show "free_index (data (swap_slots bi x y s) ! bj) = free_index (data s ! bj)"
    using bj by (simp add: swap_slots_simps)
  fix a assume "a \<in> set (bm_data (data s ! bj))"
  then obtain k where k: "k < length (bm_data (data s ! bj))" "bm_data (data s ! bj) ! k = a"
    by (auto simp: in_set_conv_nth)
  have "a \<noteq> bm_data (data s ! bi) ! x" using slot_unique[OF st bj(1) k(1) bi x] k(2) bj(2) by auto
  moreover have "a \<noteq> bm_data (data s ! bi) ! y" using slot_unique[OF st bj(1) k(1) bi y] k(2) bj(2) by auto
  ultimately show "pools (swap_slots bi x y s) a = pools s a"
    by (rule swap_slots_struct(4)[OF st bi x y])
qed

lemma bm_upd_swap:
  "(bm::block_manager_s)\<lparr>free_index := a, bm_data := b\<rparr> = bm\<lparr>bm_data := b, free_index := a\<rparr>"
  by (cases bm) simp

lemma full_to_free_eq:
  assumes st: "struct_inv s" and tm: "pools s child = Some c" and par: "parent c = Some bi"
    and f: "0 < free_index (data s ! bi)" "free_index (data s ! bi) \<le> length (bm_data (data s ! bi))"
  shows "block_manager_s_full_to_free bi child s =
     Inr (set_free_index bi (free_index (data s ! bi) - 1)
            (swap_slots bi (parent_index c) (free_index (data s ! bi) - 1) s))"
proof -
  let ?bm = "data s ! bi"
  let ?d = "bm_data ?bm" and ?f = "free_index ?bm"
  from pool_tm(4)[OF st tm] par have bi: "bi < length (data s)" and ci: "parent_index c < length ?d"
    and cc: "?d ! parent_index c = child" by auto
  have y: "?f - 1 < length ?d" using f by simp
  from struct_invD(4)[OF st bi y] obtain ty0 where ty0: "pools s (?d ! (?f - 1)) = Some ty0"
    by (auto elim!: slot_invD)
  show ?thesis
    using bi f ci y tm ty0 cc
    by (simp add: block_manager_s_full_to_free_def Let_def set_free_index_def swap_slots_def
          bm_upd_swap)
qed

lemma full_not_empty:
  assumes "tm_inv tm" "token_manager_s_is_full tm"
  shows "\<not> token_manager_s_is_empty tm"
  using assms tm_inv_full_iff[OF assms(1)] tm_cap_pos[OF assms(1)]
  by (simp add: token_manager_s_is_empty_def)

lemma free_step_A:
  fixes s :: tbman_s
  assumes inv: "tbman_inv s L" and tm: "pools s child = Some tm" and par: "parent tm = Some bi"
    and live: "live_block child tm p"
    and c1: "c1 = (if token_manager_s_is_full tm then free_index (data s ! bi) - 1
                   else parent_index tm)"
    and s1: "s1 = (if token_manager_s_is_full tm
                   then set_free_index bi (free_index (data s ! bi) - 1)
                          (swap_slots bi (parent_index tm) (free_index (data s ! bi) - 1) s)
                   else s)"
  shows "(if token_stack tm (stack_index tm) = 0 then block_manager_s_full_to_free bi child s
          else Inr s) = Inr s1"
    and "struct_inv s1" and "bi < length (data s1)"
    and "pools s1 child = Some (tm\<lparr>parent_index := c1\<rparr>)"
    and "bm_data (data s1 ! bi) ! c1 = child"
    and "\<exists>e. partition_except (pools s1) (data s1 ! bi) c1 e"
    and "\<And>bj. bj < length (data s1) \<Longrightarrow> bj \<noteq> bi \<Longrightarrow> partition_inv (pools s1) (data s1 ! bj)"
    and "aligned_inv s1" and "live_inv s1 L"
    and "pool_size s1 = pool_size s" and "block_size_array s1 = block_size_array s"
    and "external_btree s1 = external_btree s" and "max_block_size s1 = max_block_size s"
    and "aligned s1 = aligned s" and "dom (pools s1) = dom (pools s)"
    and "length (data s1) = length (data s)"
    and "\<And>a t. pools s a = Some t \<Longrightarrow> \<exists>k. pools s1 a = Some (t\<lparr>parent_index := k\<rparr>)"
    and "\<And>bj. bj < length (data s) \<Longrightarrow> bm_aligned (data s1 ! bj) = bm_aligned (data s ! bj)"
proof -
  let ?bm = "data s ! bi"
  let ?d = "bm_data ?bm" and ?f = "free_index ?bm" and ?x = "parent_index tm"
  from inv have st: "struct_inv s" and part: "\<And>bj. bj < length (data s) \<Longrightarrow> partition_inv (pools s) (data s ! bj)"
    and al: "aligned_inv s" and lv: "live_inv s L" by (simp_all add: tbman_inv_def)
  note sd = struct_invD[OF st]
  from pool_tm(4)[OF st tm] par have bi: "bi < length (data s)" and x: "?x < length ?d"
    and xc: "?d ! ?x = child" by auto
  have ti: "tm_inv tm" by (rule pool_tm(2)[OF st tm])
  have ne: "\<not> token_manager_s_is_empty tm"
    using live_block_index_pos[OF ti live] by (simp add: token_manager_s_is_empty_def)
  from part[OF bi] obtain e where fn: "?f \<le> length ?d" and e: "e \<le> length ?d"
    and pf: "\<And>k. k < length ?d \<Longrightarrow> \<exists>t. pools s (?d ! k) = Some t \<and> (token_manager_s_is_full t \<longleftrightarrow> k < ?f)"
    and pe: "\<And>k. k < length ?d \<Longrightarrow> \<exists>t. pools s (?d ! k) = Some t \<and> (token_manager_s_is_empty t \<longleftrightarrow> e \<le> k)"
    unfolding partition_inv_def by blast
  have fx: "token_manager_s_is_full tm \<longleftrightarrow> ?x < ?f" using pf[OF x] tm xc by simp
  have xe: "?x < e" using pe[OF x] tm xc ne by simp
  have sl: "\<exists>t. pools s (?d ! k) = Some t \<and> (token_manager_s_is_full t \<longleftrightarrow> k < ?f) \<and>
               (token_manager_s_is_empty t \<longleftrightarrow> e \<le> k)" if "k < length ?d" for k
    using pf[OF that] pe[OF that] by auto
  show "(if token_stack tm (stack_index tm) = 0 then block_manager_s_full_to_free bi child s
          else Inr s) = Inr s1"
  proof (cases "token_manager_s_is_full tm")
    case True
    then have "0 < ?f" using fx by simp
    from full_to_free_eq[OF st tm par this fn] True show ?thesis
      by (simp add: s1 token_manager_s_is_full_def)
  next
    case False
    then show ?thesis by (simp add: s1 token_manager_s_is_full_def)
  qed
  show "\<exists>e. partition_except (pools s1) (data s1 ! bi) c1 e"
  proof (cases "token_manager_s_is_full tm")
    case False
    then have "s1 = s" "c1 = ?x" by (simp_all add: s1 c1)
    moreover have "partition_except (pools s) ?bm ?x e"
      unfolding partition_except_def using False fx xe e sl by auto
    ultimately show ?thesis by blast
  next
    case True
    let ?y = "?f - 1"
    let ?s0 = "swap_slots bi ?x ?y s"
    have f0: "0 < ?f" and xf: "?x < ?f" using True fx by simp_all
    have y: "?y < length ?d" using f0 fn by simp
    have s1': "s1 = set_free_index bi ?y ?s0" and c1': "c1 = ?y" using True by (simp_all add: s1 c1)
    note sw = swap_slots_struct[OF st bi x y]
    have bm1: "data s1 ! bi = (data ?s0 ! bi)\<lparr>free_index := ?y\<rparr>"
      using bi by (simp add: s1' set_free_index_simps swap_slots_simps)
    have fe: "?f \<le> e"
    proof -
      from sl[OF y] obtain t where t: "pools s (?d ! ?y) = Some t" "token_manager_s_is_full t"
        "token_manager_s_is_empty t \<longleftrightarrow> e \<le> ?y" using f0 by auto
      have "tm_inv t" by (rule pool_tm(2)[OF st t(1)])
      from full_not_empty[OF this t(2)] t(3) f0 show ?thesis by simp
    qed
    have "partition_except (pools s1) (data s1 ! bi) c1 e"
      unfolding partition_except_def
    proof (intro conjI allI impI)
      show "free_index (data s1 ! bi) \<le> c1" by (simp add: bm1 c1')
      show "c1 < e" using fe f0 by (simp add: c1')
      show "e \<le> length (bm_data (data s1 ! bi))" using e sw(6) by (simp add: bm1)
    next
      fix k assume k: "k < length (bm_data (data s1 ! bi))" and kc: "k \<noteq> c1"
      then have k': "k < length ?d" and ky: "k \<noteq> ?y" using sw(6) by (simp_all add: bm1 c1')
      let ?pk = "if k = ?x then ?y else k"
      from sw(2)[OF k'] ky obtain t where t: "pools s (?d ! ?pk) = Some t"
        "pools ?s0 (bm_data (data ?s0 ! bi) ! k) = Some (t\<lparr>parent_index := k\<rparr>)"
        by (auto split: if_splits)
      have pk: "?pk < length ?d" using k' y by simp
      from sl[OF pk] t(1) have ft: "token_manager_s_is_full t \<longleftrightarrow> ?pk < ?f"
        and et: "token_manager_s_is_empty t \<longleftrightarrow> e \<le> ?pk" by simp_all
      have 1: "?pk < ?f \<longleftrightarrow> k < ?y" using ky xf f0 by auto
      have 2: "e \<le> ?pk \<longleftrightarrow> e \<le> k" using fe xf f0 by auto
      show "\<exists>tm. pools s1 (bm_data (data s1 ! bi) ! k) = Some tm \<and>
              (token_manager_s_is_full tm \<longleftrightarrow> k < free_index (data s1 ! bi)) \<and>
              (token_manager_s_is_empty tm \<longleftrightarrow> e \<le> k)"
        using t(2) ft et 1 2 unfolding bm1 by (simp add: s1' set_free_index_simps)
    qed
    then show ?thesis ..
  qed
  show "struct_inv s1"
  proof (cases "token_manager_s_is_full tm")
    case False then show ?thesis using st by (simp add: s1)
  next
    case True
    then have "0 < ?f" using fx by simp
    then have y: "?f - 1 < length ?d" using fn by simp
    from swap_slots_struct(1)[OF st bi x y] True show ?thesis
      by (simp add: s1 set_free_index_struct)
  qed
  show len: "length (data s1) = length (data s)"
    by (simp add: s1 set_free_index_simps swap_slots_simps)
  show "bi < length (data s1)" using bi len by simp
  show "pool_size s1 = pool_size s" "block_size_array s1 = block_size_array s"
    "external_btree s1 = external_btree s" "max_block_size s1 = max_block_size s"
    "aligned s1 = aligned s"
    by (simp_all add: s1 set_free_index_simps swap_slots_simps)
  show cor: "\<exists>k. pools s1 a = Some (t\<lparr>parent_index := k\<rparr>)" if a: "pools s a = Some t" for a t
  proof (cases "token_manager_s_is_full tm")
    case False
    then show ?thesis using a by (intro exI[of _ "parent_index t"]) (simp add: s1)
  next
    case True
    then have "0 < ?f" using fx by simp
    then have y: "?f - 1 < length ?d" using fn by simp
    from swap_slots_struct(3)[OF st bi x y a] True show ?thesis
      by (simp add: s1 set_free_index_simps)
  qed
  show "dom (pools s1) = dom (pools s)"
  proof (cases "token_manager_s_is_full tm")
    case False then show ?thesis by (simp add: s1)
  next
    case True
    then have "0 < ?f" using fx by simp
    then have y: "?f - 1 < length ?d" using fn by simp
    from swap_slots_struct(5)[OF st bi x y] True show ?thesis
      by (simp add: s1 set_free_index_simps)
  qed
  show "aligned_inv s1"
  proof (cases "token_manager_s_is_full tm")
    case False then show ?thesis using al by (simp add: s1)
  next
    case True
    then have "0 < ?f" using fx by simp
    then have y: "?f - 1 < length ?d" using fn by simp
    from swap_slots_aligned[OF st bi x y al] True show ?thesis
      by (simp add: s1 set_free_index_aligned)
  qed
  show "live_inv s1 L"
  proof (cases "token_manager_s_is_full tm")
    case False then show ?thesis using lv by (simp add: s1)
  next
    case True
    then have "0 < ?f" using fx by simp
    then have y: "?f - 1 < length ?d" using fn by simp
    from swap_slots_live[OF st bi x y lv] True show ?thesis
      by (simp add: s1 live_inv_def set_free_index_simps)
  qed
  show "partition_inv (pools s1) (data s1 ! bj)" if bj: "bj < length (data s1)" "bj \<noteq> bi" for bj
  proof (cases "token_manager_s_is_full tm")
    case False then show ?thesis using part bj by (simp add: s1)
  next
    case True
    then have "0 < ?f" using fx by simp
    then have y: "?f - 1 < length ?d" using fn by simp
    have bj': "bj < length (data s)" using bj len by simp
    from swap_slots_other[OF st bi x y bj' bj(2)] part[OF bj'] True bj(2) show ?thesis
      by (simp add: s1 set_free_index_simps)
  qed
  show "bm_aligned (data s1 ! bj) = bm_aligned (data s ! bj)" if "bj < length (data s)" for bj
  proof (cases "token_manager_s_is_full tm")
    case False then show ?thesis by (simp add: s1)
  next
    case True
    then show ?thesis using that bi
      by (cases "bj = bi") (simp_all add: s1 set_free_index_simps swap_slots_simps swap_slots_bm)
  qed
  show "pools s1 child = Some (tm\<lparr>parent_index := c1\<rparr>)"
  proof (cases "token_manager_s_is_full tm")
    case False then show ?thesis using tm by (simp add: s1 c1)
  next
    case True
    define y where "y = ?f - 1"
    have f0: "0 < ?f" using True fx by simp
    then have y: "y < length ?d" using fn by (simp add: y_def)
    note sw = swap_slots_struct[OF st bi x y]
    have "(if y = ?x then y else if y = y then ?x else y) = ?x" by simp
    with sw(2)[OF y] obtain t where t: "pools s (?d ! ?x) = Some t"
      "pools (swap_slots bi ?x y s) (bm_data (data (swap_slots bi ?x y s) ! bi) ! y)
         = Some (t\<lparr>parent_index := y\<rparr>)" by metis
    from t(1) tm xc have "t = tm" by simp
    with t(2) sw(8) xc have "pools (swap_slots bi ?x y s) child = Some (tm\<lparr>parent_index := y\<rparr>)"
      by simp
    then show ?thesis using True by (simp add: s1 c1 set_free_index_simps y_def)
  qed
  show "bm_data (data s1 ! bi) ! c1 = child"
  proof (cases "token_manager_s_is_full tm")
    case False then show ?thesis using xc by (simp add: s1 c1)
  next
    case True
    have f0: "0 < ?f" using True fx by simp
    then have y: "?f - 1 < length ?d" using fn by simp
    from swap_slots_struct(8)[OF st bi x y] xc True bi show ?thesis
      by (simp add: s1 c1 set_free_index_simps swap_slots_simps)
  qed
qed

lemma partition_exceptD:
  assumes "partition_except h bm c e"
  shows "free_index bm \<le> c" "c < e" "e \<le> length (bm_data bm)"
    and "\<And>k. k < length (bm_data bm) \<Longrightarrow> k \<noteq> c \<Longrightarrow>
          \<exists>tm. h (bm_data bm ! k) = Some tm \<and>
             (token_manager_s_is_full tm \<longleftrightarrow> k < free_index bm) \<and>
             (token_manager_s_is_empty tm \<longleftrightarrow> e \<le> k)"
  using assms unfolding partition_except_def by simp_all

lemma free_step_B:
  fixes s1 :: tbman_s
  assumes st: "struct_inv s1" and tm1: "pools s1 child = Some tm1" and par: "parent tm1 = Some bi"
    and pe: "partition_except (pools s1) (data s1 ! bi) (parent_index tm1) e"
    and oth0: "\<forall>bj<length (data s1). bj \<noteq> bi \<longrightarrow> partition_inv (pools s1) (data s1 ! bj)"
    and al: "aligned_inv s1" and lv: "live_inv s1 L"
    and live: "live_block child tm1 p"
    and tm2: "tm2 = tm1\<lparr>stack_index := stack_index tm1 - 1,
                token_stack := (token_stack tm1)(stack_index tm1 - 1 :=
                   (p - child) div tm_block_size tm1)\<rparr>"
    and s2: "s2 = s1\<lparr>pools := (pools s1)(child \<mapsto> tm2)\<rparr>"
  shows "struct_inv s2"
    and "partition_except (pools s2) (data s2 ! bi) (parent_index tm1) e"
    and "\<not> token_manager_s_is_full tm2"
    and "\<not> token_manager_s_is_empty tm2 \<Longrightarrow> partition_inv (pools s2) (data s2 ! bi)"
    and "\<And>bj. bj < length (data s2) \<Longrightarrow> bj \<noteq> bi \<Longrightarrow> partition_inv (pools s2) (data s2 ! bj)"
    and "aligned_inv s2" and "live_inv s2 (L - {p})"
    and "tm_inv tm2"
    and "\<And>a t q. pools s2 a = Some t \<Longrightarrow> live_block a t q \<Longrightarrow>
           \<exists>t1. pools s1 a = Some t1 \<and> live_block a t1 q"
    and "\<And>a t. pools s2 a = Some t \<Longrightarrow> \<not> live_block a t p"
proof -
  let ?bm = "data s1 ! bi"
  let ?d = "bm_data ?bm" and ?c = "parent_index tm1"
  have oth: "\<And>bj. bj < length (data s1) \<Longrightarrow> bj \<noteq> bi \<Longrightarrow> partition_inv (pools s1) (data s1 ! bj)"
    using oth0 by blast
  note sd = struct_invD[OF st]
  note pt = pool_tm[OF st tm1]
  from pt(4) par have bi: "bi < length (data s1)" and c: "?c < length ?d" and cc: "?d ! ?c = child"
    and bs: "tm_block_size tm1 = bm_block_size ?bm" by auto
  note fr = tm_free_ok(3)[OF pt(2) live] tm_free_ok(4)[OF pt(2) live] tm_free_ok(5)[OF pt(2) live]
    tm_free_ok(6)[OF pt(2) live]
  show ti2: "tm_inv tm2" using fr(1) by (simp add: tm2)
  have ip: "0 < stack_index tm1" by (rule live_block_index_pos[OF pt(2) live])
  have "stack_index tm1 \<le> tm_cap tm1" using pt(2) by (simp add: tm_inv_def)
  then have "stack_index tm2 \<noteq> tm_cap tm2" using ip by (simp add: tm2)
  then show nf: "\<not> token_manager_s_is_full tm2" using tm_inv_full_iff[OF ti2] by simp
  have d2: "data s2 = data s1" by (simp add: s2)
  have h2: "pools s2 = (pools s1)(child \<mapsto> tm2)" by (simp add: s2)
  have dom2: "dom (pools s2) = dom (pools s1)" using tm1 by (auto simp: h2)
  have others: "pools s2 (bm_data (data s1 ! bj) ! k) = pools s1 (bm_data (data s1 ! bj) ! k)"
    if "bj < length (data s1)" "k < length (bm_data (data s1 ! bj))" "bj \<noteq> bi \<or> k \<noteq> ?c" for bj k
  proof -
    have "bm_data (data s1 ! bj) ! k \<noteq> child"
      using slot_unique[OF st that(1,2) bi c] that(3) cc by auto
    then show ?thesis by (simp add: h2)
  qed
  show "struct_inv s2"
    unfolding struct_inv_def
  proof (intro conjI allI impI ballI)
    show "length (data s2) = length (block_size_array s2)" using sd(1) by (simp add: s2)
    show "finite (dom (pools s2))" using sd(6) by (simp add: dom2)
    show "internal_btree s2 = dom (pools s2)" using sd(7) dom2 by (simp add: s2)
    show "0 \<notin> dom (pools s2)" using sd(8) by (simp add: dom2)
  next
    fix bj assume "bj < length (data s2)"
    then have bj: "bj < length (data s1)" by (simp add: d2)
    show "bm_pool_size (data s2 ! bj) = pool_size s2" using sd(2)[OF bj] by (simp add: s2)
    show "bm_block_size (data s2 ! bj) = block_size_array s2 ! bj" using sd(3)[OF bj] by (simp add: s2)
    fix k assume "k < length (bm_data (data s2 ! bj))"
    then have k: "k < length (bm_data (data s1 ! bj))" by (simp add: d2)
    show "slot_inv (pools s2) (pool_size s2) bj (data s2 ! bj) k"
    proof (cases "bj = bi \<and> k = ?c")
      case False
      then have "pools s2 (bm_data (data s1 ! bj) ! k) = pools s1 (bm_data (data s1 ! bj) ! k)"
        using others[OF bj k] by blast
      then have "slot_inv (pools s2) (pool_size s1) bj (data s1 ! bj) k
                  = slot_inv (pools s1) (pool_size s1) bj (data s1 ! bj) k"
        by (intro slot_inv_cong) simp_all
      with sd(4)[OF bj k] show ?thesis by (simp add: s2)
    next
      case True
      from sd(4)[OF bi c] tm1 cc have al1: "tm_aligned tm1 \<longleftrightarrow> child AND (pool_size s1 - 1) = 0"
        by (auto elim!: slot_invD)
      have "slot_inv (pools s2) (pool_size s1) bi (data s1 ! bi) ?c"
      proof (rule slot_invI)
        show "pools s2 (?d ! ?c) = Some tm2" by (simp add: h2 cc)
        show "parent tm2 = Some bi" using par by (simp add: tm2)
        show "parent_index tm2 = ?c" by (simp add: tm2)
        show "tm_pool_size tm2 = pool_size s1" using pt(1) by (simp add: tm2)
        show "tm_block_size tm2 = bm_block_size ?bm" using bs by (simp add: tm2)
        show "tm_inv tm2" by (rule ti2)
        show "tm_aligned tm2 \<longleftrightarrow> ?d ! ?c AND (pool_size s1 - 1) = 0" using al1 by (simp add: tm2 cc)
      qed
      with True show ?thesis by (simp add: s2)
    qed
  next
    fix a t assume a: "pools s2 a = Some t"
    show "\<exists>bi<length (data s2). parent t = Some bi \<and>
            parent_index t < length (bm_data (data s2 ! bi)) \<and>
            bm_data (data s2 ! bi) ! parent_index t = a"
    proof (cases "a = child")
      case True
      with a have "t = tm2" by (simp add: h2)
      with bi c cc par True show ?thesis by (auto simp: d2 tm2)
    next
      case False
      with a have "pools s1 a = Some t" by (simp add: h2)
      from sd(5)[OF this] show ?thesis by (simp add: d2)
    qed
  next
    fix a b assume "a \<in> dom (pools s2) \<and> b \<in> dom (pools s2) \<and> a \<noteq> b"
    then show "a + pool_size s2 \<le> b \<or> b + pool_size s2 \<le> a"
      using sd(9)[of a b] by (simp add: dom2) (simp add: s2)
  next
    fix a assume "a \<in> dom (pools s2)"
    then show "a + pool_size s2 \<le> 2 ^ 64" using sd(10)[of a] by (simp add: dom2) (simp add: s2)
  next
    fix x n assume "external_btree s2 x = Some n"
    then have x: "external_btree s1 x = Some n" by (simp add: s2)
    from sd(11)[OF x] show "0 < n" "x \<noteq> 0" "x + n \<le> 2 ^ 64" by simp_all
    fix a assume "a \<in> dom (pools s2)"
    then have "a \<in> dom (pools s1)" by (simp add: dom2)
    with sd(11)[OF x] show "x + n \<le> a \<or> a + pool_size s2 \<le> x" by (simp add: s2)
  qed
  note ped = partition_exceptD[OF pe]
  show pe2: "partition_except (pools s2) (data s2 ! bi) ?c e"
    unfolding partition_except_def d2
  proof (intro conjI allI impI)
    show "free_index ?bm \<le> ?c" "?c < e" "e \<le> length ?d" by (rule ped(1-3))+
    fix k assume k: "k < length ?d" "k \<noteq> ?c"
    from others[OF bi k(1)] k(2) have "pools s2 (?d ! k) = pools s1 (?d ! k)" by simp
    with ped(4)[OF k] show "\<exists>tm. pools s2 (?d ! k) = Some tm \<and>
       (token_manager_s_is_full tm \<longleftrightarrow> k < free_index ?bm) \<and>
       (token_manager_s_is_empty tm \<longleftrightarrow> e \<le> k)" by simp
  qed
  show "partition_inv (pools s2) (data s2 ! bi)" if ne: "\<not> token_manager_s_is_empty tm2"
  proof -
    have all: "\<exists>tm. pools s2 (?d ! k) = Some tm \<and>
       (token_manager_s_is_full tm \<longleftrightarrow> k < free_index ?bm) \<and>
       (token_manager_s_is_empty tm \<longleftrightarrow> e \<le> k)" if k: "k < length ?d" for k
    proof (cases "k = ?c")
      case False
      with partition_exceptD(4)[OF pe2] k show ?thesis by (simp add: d2)
    next
      case True
      have "pools s2 (?d ! k) = Some tm2" using True cc by (simp add: h2)
      with nf ne ped(1,2) True show ?thesis by simp
    qed
    show ?thesis unfolding partition_inv_def d2
    proof (intro conjI allI impI)
      show "free_index ?bm \<le> length ?d" using ped(1) c by simp
      show "\<exists>tm. pools s2 (?d ! k) = Some tm \<and> (token_manager_s_is_full tm \<longleftrightarrow> k < free_index ?bm)"
        if "k < length ?d" for k using all[OF that] by blast
      show "\<exists>e\<le>length ?d. \<forall>k<length ?d. \<exists>tm. pools s2 (?d ! k) = Some tm \<and>
              (token_manager_s_is_empty tm \<longleftrightarrow> e \<le> k)"
        using ped(3) all by blast
    qed
  qed
  show "partition_inv (pools s2) (data s2 ! bj)" if bj: "bj < length (data s2)" "bj \<noteq> bi" for bj
  proof -
    have bj': "bj < length (data s1)" using bj by (simp add: d2)
    have "partition_inv (pools s2) (data s1 ! bj) = partition_inv (pools s1) (data s1 ! bj)"
    proof (rule partition_inv_cong)
      fix a assume "a \<in> set (bm_data (data s1 ! bj))"
      then obtain k where k: "k < length (bm_data (data s1 ! bj))" "bm_data (data s1 ! bj) ! k = a"
        by (auto simp: in_set_conv_nth)
      from others[OF bj' k(1)] bj(2) k(2) show "pools s2 a = pools s1 a" by simp
    qed simp_all
    with oth[OF bj' bj(2)] show ?thesis by (simp add: d2)
  qed
  show "aligned_inv s2" using al unfolding aligned_inv_def by (simp add: s2)
  show bck: "\<exists>t1. pools s1 a = Some t1 \<and> live_block a t1 q"
    if a: "pools s2 a = Some t" "live_block a t q" for a t q
  proof (cases "a = child")
    case True
    with a(1) have "t = tm2" by (simp add: h2)
    with a(2) True have "live_block child tm1 q" using fr(4)[of q] by (simp add: tm2)
    with tm1 True show ?thesis by simp
  next
    case False
    with a show ?thesis by (simp add: h2)
  qed
  show "\<not> live_block a t p" if a: "pools s2 a = Some t" for a t
  proof
    assume l: "live_block a t p"
    from bck[OF a l] obtain t1 where t1: "pools s1 a = Some t1" "live_block a t1 p" by blast
    from live_block_pool_unique[OF st t1 tm1 live] have "a = child" .
    with a have "t = tm2" by (simp add: h2)
    with l \<open>a = child\<close> fr(2) show False by (simp add: tm2)
  qed
  show "live_inv s2 (L - {p})"
    unfolding live_inv_def
  proof
    fix q assume q: "q \<in> L - {p}"
    with lv have "q \<in> dom (external_btree s1) \<or> (\<exists>a tm. pools s1 a = Some tm \<and> live_block a tm q)"
      by (simp add: live_inv_def)
    then show "q \<in> dom (external_btree s2) \<or> (\<exists>a tm. pools s2 a = Some tm \<and> live_block a tm q)"
    proof
      assume "q \<in> dom (external_btree s1)"
      then show ?thesis by (simp add: s2)
    next
      assume "\<exists>a tm. pools s1 a = Some tm \<and> live_block a tm q"
      then obtain a t where a: "pools s1 a = Some t" "live_block a t q" by blast
      show ?thesis
      proof (cases "a = child")
        case True
        with a tm1 have "live_block child tm1 q" by simp
        from fr(3)[OF this] q have "live_block child tm2 q" by (simp add: tm2)
        moreover have "pools s2 child = Some tm2" by (simp add: h2)
        ultimately show ?thesis by blast
      next
        case False
        with a have "pools s2 a = Some t" by (simp add: h2)
        with a(2) show ?thesis by blast
      qed
    qed
  qed
qed

lemma empty_index_loop_eq:
  assumes "\<And>k. e \<le> k \<Longrightarrow> k < n \<Longrightarrow> \<exists>t. h (d ! k) = Some t \<and> token_manager_s_is_empty t"
    and "e \<le> n"
    and "e = 0 \<or> (\<exists>t. h (d ! (e - 1)) = Some t \<and> \<not> token_manager_s_is_empty t)"
  shows "empty_index_loop h d n = Inr e"
  using assms
proof (induction n)
  case 0
  then show ?case by simp
next
  case (Suc n)
  show ?case
  proof (cases "e = Suc n")
    case True
    with Suc.prems(3) show ?thesis by auto
  next
    case False
    with Suc.prems(2) have en: "e \<le> n" by simp
    from Suc.prems(1)[OF en] obtain t where t: "h (d ! n) = Some t" "token_manager_s_is_empty t"
      by auto
    have "empty_index_loop h d n = Inr e"
    proof (rule Suc.IH)
      show "\<And>k. e \<le> k \<Longrightarrow> k < n \<Longrightarrow> \<exists>t. h (d ! k) = Some t \<and> token_manager_s_is_empty t"
        using Suc.prems(1) by simp
      show "e \<le> n" by (rule en)
      show "e = 0 \<or> (\<exists>t. h (d ! (e - 1)) = Some t \<and> \<not> token_manager_s_is_empty t)"
        by (rule Suc.prems(3))
    qed
    with t show ?thesis by simp
  qed
qed

lemma sweep_loop_eq:
  assumes "length d = n" "distinct d" "e \<le> n"
    and "\<And>k. k < n \<Longrightarrow> \<exists>tm. h (d ! k) = Some tm \<and> (token_manager_s_is_empty tm \<longleftrightarrow> e \<le> k)"
    and "set d \<subseteq> t"
  shows "sweep_loop n d t h = Inr (take e d, t - set (drop e d), h |` (- set (drop e d)))"
  using assms
proof (induction n arbitrary: d t h)
  case 0
  then show ?case by simp
next
  case (Suc k)
  have dk: "d = take k d @ [d ! k]" using Suc.prems(1) by (metis lessI take_Suc_conv_app_nth take_all order_refl)
  from Suc.prems(4)[of k] obtain tm where tm: "h (d ! k) = Some tm"
    "token_manager_s_is_empty tm \<longleftrightarrow> e \<le> k" by auto
  show ?case
  proof (cases "e \<le> k")
    case False
    with Suc.prems(3) have e: "e = Suc k" by simp
    then have "take e d = d" "drop e d = []" using Suc.prems(1) by simp_all
    with tm False show ?thesis by simp
  next
    case True
    have kt: "d ! k \<in> t" using Suc.prems(1,5) by (auto simp: subset_iff)
    have nin: "d ! k \<notin> set (take k d)"
    proof
      assume "d ! k \<in> set (take k d)"
      then obtain j where j: "j < k" "d ! j = d ! k" using Suc.prems(1)
        by (auto simp: in_set_conv_nth)
      with Suc.prems(1,2) show False by (simp add: nth_eq_iff_index_eq)
    qed
    have IH: "sweep_loop k (take k d) (t - {d ! k}) (h(d ! k := None)) =
       Inr (take e (take k d), (t - {d ! k}) - set (drop e (take k d)),
            (h(d ! k := None)) |` (- set (drop e (take k d))))"
    proof (rule Suc.IH)
      show "length (take k d) = k" using Suc.prems(1) by simp
      show "distinct (take k d)" using Suc.prems(2) by simp
      show "e \<le> k" by (rule True)
      show "set (take k d) \<subseteq> t - {d ! k}" using Suc.prems(5) nin by (auto dest: in_set_takeD)
      fix j assume j: "j < k"
      then have ne: "d ! j \<noteq> d ! k" using Suc.prems(1,2) by (simp add: nth_eq_iff_index_eq)
      from Suc.prems(4)[of j] j ne
      show "\<exists>tm. (h(d ! k := None)) (take k d ! j) = Some tm \<and> (token_manager_s_is_empty tm \<longleftrightarrow> e \<le> j)"
        by simp
    qed
    have 1: "take e (take k d) = take e d" using True by (simp add: min_def)
    have "drop e d = drop e (take k d @ [d ! k])" using dk by simp
    also have "\<dots> = drop e (take k d) @ [d ! k]" using True Suc.prems(1) by simp
    finally have 2: "set (drop e d) = insert (d ! k) (set (drop e (take k d)))" by simp
    have 3: "(t - {d ! k}) - set (drop e (take k d)) = t - set (drop e d)" using 2 by auto
    have 4: "(h(d ! k := None)) |` (- set (drop e (take k d))) = h |` (- set (drop e d))"
      unfolding 2 by (rule ext) (simp add: restrict_map_def)
    have step: "sweep_loop (Suc k) d t h = sweep_loop k (take k d) (t - {d ! k}) (h(d ! k := None))"
      using tm True kt by simp
    show ?thesis unfolding step IH 1 3 4 by (rule refl)
  qed
qed

lemma free_to_empty_move_stay:
  assumes "bi < length (data s)" "pools s child = Some c"
    and "block_manager_s_empty_tail (pools s) (data s ! bi) = Inr et"
    and "\<not> (et < length (bm_data (data s ! bi)) \<and>
            parent_index c < length (bm_data (data s ! bi)) - et - 1)"
  shows "free_to_empty_move bi child s = Inr (et, s)"
  using assms by (auto simp: free_to_empty_move_def Let_def)

lemma free_to_empty_move_swap:
  assumes "bi < length (data s)" "pools s child = Some c"
    and "block_manager_s_empty_tail (pools s) (data s ! bi) = Inr et"
    and "et < length (bm_data (data s ! bi))"
    and "parent_index c < length (bm_data (data s ! bi)) - et - 1"
    and y: "y = length (bm_data (data s ! bi)) - et - 1"
    and "pools s (bm_data (data s ! bi) ! y) = Some sc"
    and "bm_data (data s ! bi) ! y \<noteq> child"
    and "bm_data (data s ! bi) ! parent_index c = child"
  shows "free_to_empty_move bi child s = Inr (et + 1, swap_slots bi (parent_index c) y s)"
proof -
  let ?d = "bm_data (data s ! bi)"
  have ne: "parent_index c \<noteq> y" using assms(5) y by simp
  have upd: "?d[parent_index c := ?d ! y, y := child] = ?d[y := child, parent_index c := ?d ! y]"
    using ne by (simp add: list_update_swap)
  have c1: "et < length ?d \<and> parent_index c < length ?d - et - 1" using assms(4,5) by simp
  show ?thesis
    using assms(1,2,3,7,8,9) c1 upd
    unfolding free_to_empty_move_def Let_def swap_slots_def y
    by simp
qed

lemma free_step_C:
  fixes s2 :: tbman_s
  assumes st: "struct_inv s2" and tm2: "pools s2 child = Some tm2" and par: "parent tm2 = Some bi"
    and pe: "partition_except (pools s2) (data s2 ! bi) (parent_index tm2) e"
    and emp: "token_manager_s_is_empty tm2" and nf: "\<not> token_manager_s_is_full tm2"
    and s3: "s3 = (if parent_index tm2 < e - 1 then swap_slots bi (parent_index tm2) (e - 1) s2
                   else s2)"
  shows "free_to_empty_move bi child s2 = Inr (length (bm_data (data s2 ! bi)) - (e - 1), s3)"
    and "\<And>k. k < length (bm_data (data s2 ! bi)) \<Longrightarrow>
           \<exists>t. pools s3 (bm_data (data s3 ! bi) ! k) = Some t \<and>
             (token_manager_s_is_full t \<longleftrightarrow> k < free_index (data s2 ! bi)) \<and>
             (token_manager_s_is_empty t \<longleftrightarrow> e - 1 \<le> k)"
    and "free_index (data s2 ! bi) \<le> e - 1" and "e - 1 < length (bm_data (data s2 ! bi))"
    and "length (bm_data (data s3 ! bi)) = length (bm_data (data s2 ! bi))"
    and "free_index (data s3 ! bi) = free_index (data s2 ! bi)"
    and "sweep_hysteresis (data s3 ! bi) = sweep_hysteresis (data s2 ! bi)"
proof -
  let ?bm = "data s2 ! bi"
  let ?d = "bm_data ?bm" and ?c = "parent_index tm2" and ?f = "free_index ?bm"
  let ?n = "length ?d"
  note pt = pool_tm[OF st tm2]
  from pt(4) par have bi: "bi < length (data s2)" and c: "?c < ?n" and cc: "?d ! ?c = child" by auto
  note ped = partition_exceptD[OF pe]
  have e0: "0 < e" using ped(2) by simp
  have y: "e - 1 < ?n" using ped(3) e0 by simp
  show "?f \<le> e - 1" using ped(1,2) by simp
  show "e - 1 < ?n" by (rule y)
  have ce: "?c \<le> e - 1" using ped(2) by simp
  show "free_to_empty_move bi child s2 = Inr (?n - (e - 1), s3)"
  proof (cases "?c < e - 1")
    case False
    with ce have ceq: "?c = e - 1" by simp
    have "empty_index_loop (pools s2) ?d ?n = Inr (e - 1)"
    proof (rule empty_index_loop_eq)
      show "e - 1 \<le> ?n" using y by simp
      show "\<exists>t. pools s2 (?d ! k) = Some t \<and> token_manager_s_is_empty t"
        if "e - 1 \<le> k" "k < ?n" for k
      proof (cases "k = ?c")
        case True then show ?thesis using tm2 cc emp by simp
      next
        case False
        with ped(4)[OF that(2) False] that(1) ceq show ?thesis by auto
      qed
      show "e - 1 = 0 \<or> (\<exists>t. pools s2 (?d ! (e - 1 - 1)) = Some t \<and> \<not> token_manager_s_is_empty t)"
      proof (cases "e - 1 = 0")
        case True then show ?thesis by simp
      next
        case False
        then have k: "e - 1 - 1 < ?n" "e - 1 - 1 \<noteq> ?c" using y ceq by simp_all
        from ped(4)[OF k] False show ?thesis by auto
      qed
    qed
    then have et: "block_manager_s_empty_tail (pools s2) ?bm = Inr (?n - (e - 1))"
      using c by (simp add: block_manager_s_empty_tail_def)
    have "\<not> (?n - (e - 1) < ?n \<and> ?c < ?n - (?n - (e - 1)) - 1)" using ceq y by arith
    from free_to_empty_move_stay[OF bi tm2 et this] False show ?thesis by (simp add: s3)
  next
    case True
    have "empty_index_loop (pools s2) ?d ?n = Inr e"
    proof (rule empty_index_loop_eq)
      show "e \<le> ?n" by (rule ped(3))
      show "\<exists>t. pools s2 (?d ! k) = Some t \<and> token_manager_s_is_empty t"
        if "e \<le> k" "k < ?n" for k
      proof -
        have "k \<noteq> ?c" using that(1) ped(2) by simp
        from ped(4)[OF that(2) this] that(1) show ?thesis by auto
      qed
      have k: "e - 1 < ?n" "e - 1 \<noteq> ?c" using y True by simp_all
      from ped(4)[OF k] e0
      show "e = 0 \<or> (\<exists>t. pools s2 (?d ! (e - 1)) = Some t \<and> \<not> token_manager_s_is_empty t)"
        by auto
    qed
    then have et: "block_manager_s_empty_tail (pools s2) ?bm = Inr (?n - e)"
      using c by (simp add: block_manager_s_empty_tail_def)
    have cond: "?n - e < ?n" "?c < ?n - (?n - e) - 1" using True e0 ped(3) c by simp_all
    have idx: "e - 1 = ?n - (?n - e) - 1" using ped(3) by simp
    have cnt: "?n - e + 1 = ?n - (e - 1)" using ped(3) e0 by simp
    have k: "e - 1 < ?n" "e - 1 \<noteq> ?c" using y True by simp_all
    from ped(4)[OF k] obtain sc where sc: "pools s2 (?d ! (e - 1)) = Some sc" by auto
    have ne: "?d ! (e - 1) \<noteq> child" using slot_unique[OF st bi y bi c] cc k(2) by auto
    from free_to_empty_move_swap[OF bi tm2 et cond idx sc ne cc] True show ?thesis
      by (simp only: s3 cnt if_True)
  qed
  have stat: "\<exists>t. pools s3 (bm_data (data s3 ! bi) ! k) = Some t \<and>
             (token_manager_s_is_full t \<longleftrightarrow> k < ?f) \<and>
             (token_manager_s_is_empty t \<longleftrightarrow> e - 1 \<le> k)" if k: "k < ?n" for k
  proof (cases "?c < e - 1")
    case False
    with ce have ceq: "?c = e - 1" by simp
    have s3': "s3 = s2" using False by (simp add: s3)
    show ?thesis
    proof (cases "k = ?c")
      case True
      then show ?thesis using tm2 cc emp nf ped(1) ceq by (simp add: s3')
    next
      case kc: False
      from ped(4)[OF k kc] kc ceq show ?thesis by (auto simp: s3')
    qed
  next
    case True
    have s3': "s3 = swap_slots bi ?c (e - 1) s2" using True by (simp add: s3)
    note sw = swap_slots_struct[OF st bi c y]
    let ?pk = "if k = ?c then e - 1 else if k = e - 1 then ?c else k"
    from sw(2)[OF k] obtain t where t: "pools s2 (?d ! ?pk) = Some t"
      "pools s3 (bm_data (data s3 ! bi) ! k) = Some (t\<lparr>parent_index := k\<rparr>)"
      unfolding s3' by blast
    have ft: "(token_manager_s_is_full t \<longleftrightarrow> k < ?f) \<and> (token_manager_s_is_empty t \<longleftrightarrow> e - 1 \<le> k)"
    proof (cases "k = e - 1")
      case ke: True
      then have "?pk = ?c" using True by simp
      with t(1) cc tm2 have "t = tm2" by simp
      then show ?thesis using emp nf ke ped(1) True by simp
    next
      case ke: False
      have pk: "?pk < ?n" "?pk \<noteq> ?c" using k y ke True by auto
      from ped(4)[OF pk] t(1) have
        1: "token_manager_s_is_full t \<longleftrightarrow> ?pk < ?f" "token_manager_s_is_empty t \<longleftrightarrow> e \<le> ?pk"
        by simp_all
      have "?pk < ?f \<longleftrightarrow> k < ?f" using ped(1) True by auto
      moreover have "e \<le> ?pk \<longleftrightarrow> e - 1 \<le> k" using ke True e0 by auto
      ultimately show ?thesis using 1 by simp
    qed
    with t(2) show ?thesis by simp
  qed
  show "\<And>k. k < ?n \<Longrightarrow> \<exists>t. pools s3 (bm_data (data s3 ! bi) ! k) = Some t \<and>
             (token_manager_s_is_full t \<longleftrightarrow> k < ?f) \<and>
             (token_manager_s_is_empty t \<longleftrightarrow> e - 1 \<le> k)" by (rule stat)
  show "length (bm_data (data s3 ! bi)) = ?n" using bi by (simp add: s3 swap_slots_bm)
  show "free_index (data s3 ! bi) = ?f" using bi by (simp add: s3 swap_slots_bm)
  show "sweep_hysteresis (data s3 ! bi) = sweep_hysteresis ?bm" using bi by (simp add: s3 swap_slots_bm)
qed

lemma swap_if_inv:
  fixes s2 :: tbman_s
  assumes st: "struct_inv s2" and bi: "bi < length (data s2)"
    and x: "x < length (bm_data (data s2 ! bi))" and y: "y < length (bm_data (data s2 ! bi))"
    and oth0: "\<forall>bj<length (data s2). bj \<noteq> bi \<longrightarrow> partition_inv (pools s2) (data s2 ! bj)"
    and al: "aligned_inv s2" and lv: "live_inv s2 L"
    and s3: "s3 = (if b then swap_slots bi x y s2 else s2)"
  shows "struct_inv s3"
    and "\<And>bj. bj < length (data s3) \<Longrightarrow> bj \<noteq> bi \<Longrightarrow> partition_inv (pools s3) (data s3 ! bj)"
    and "aligned_inv s3" and "live_inv s3 L"
    and "pool_size s3 = pool_size s2" and "block_size_array s3 = block_size_array s2"
    and "external_btree s3 = external_btree s2" and "max_block_size s3 = max_block_size s2"
    and "aligned s3 = aligned s2" and "dom (pools s3) = dom (pools s2)"
    and "length (data s3) = length (data s2)"
    and "\<And>a t. pools s2 a = Some t \<Longrightarrow> \<exists>k. pools s3 a = Some (t\<lparr>parent_index := k\<rparr>)"
    and "\<And>bj. bj < length (data s2) \<Longrightarrow> bm_aligned (data s3 ! bj) = bm_aligned (data s2 ! bj)"
proof -
  have oth: "\<And>bj. bj < length (data s2) \<Longrightarrow> bj \<noteq> bi \<Longrightarrow> partition_inv (pools s2) (data s2 ! bj)"
    using oth0 by blast
  show "struct_inv s3" using st swap_slots_struct(1)[OF st bi x y] by (simp add: s3)
  show len: "length (data s3) = length (data s2)" by (simp add: s3 swap_slots_simps)
  show "pool_size s3 = pool_size s2" "block_size_array s3 = block_size_array s2"
    "external_btree s3 = external_btree s2" "max_block_size s3 = max_block_size s2"
    "aligned s3 = aligned s2"
    by (simp_all add: s3 swap_slots_simps)
  show "dom (pools s3) = dom (pools s2)" using swap_slots_struct(5)[OF st bi x y] by (simp add: s3)
  show "aligned_inv s3" using al swap_slots_aligned[OF st bi x y al] by (simp add: s3)
  show "live_inv s3 L" using lv swap_slots_live[OF st bi x y lv] by (simp add: s3)
  show "partition_inv (pools s3) (data s3 ! bj)" if bj: "bj < length (data s3)" "bj \<noteq> bi" for bj
  proof -
    have bj': "bj < length (data s2)" using bj len by simp
    from swap_slots_other[OF st bi x y bj' bj(2)] oth[OF bj' bj(2)] show ?thesis
      by (simp add: s3)
  qed
  show "\<exists>k. pools s3 a = Some (t\<lparr>parent_index := k\<rparr>)" if a: "pools s2 a = Some t" for a t
  proof (cases b)
    case False
    then show ?thesis using a by (intro exI[of _ "parent_index t"]) (simp add: s3)
  next
    case True
    from swap_slots_struct(3)[OF st bi x y a] True show ?thesis by (simp add: s3)
  qed
  show "bm_aligned (data s3 ! bj) = bm_aligned (data s2 ! bj)" if "bj < length (data s2)" for bj
    using that bi by (cases "bj = bi") (simp_all add: s3 swap_slots_simps swap_slots_bm)
qed

lemma empty_not_live:
  assumes "tm_inv tm" "token_manager_s_is_empty tm"
  shows "\<not> live_block a tm p"
  using live_block_index_pos[OF assms(1)] assms(2)
  by (auto simp: token_manager_s_is_empty_def)

lemma free_step_D:
  fixes s3 :: tbman_s
  assumes st: "struct_inv s3" and bi: "bi < length (data s3)"
    and stat0: "\<forall>k<length (bm_data (data s3 ! bi)).
           \<exists>t. pools s3 (bm_data (data s3 ! bi) ! k) = Some t \<and>
             (token_manager_s_is_full t \<longleftrightarrow> k < free_index (data s3 ! bi)) \<and>
             (token_manager_s_is_empty t \<longleftrightarrow> e \<le> k)"
    and fe: "free_index (data s3 ! bi) \<le> e" and en: "e \<le> length (bm_data (data s3 ! bi))"
    and oth0: "\<forall>bj<length (data s3). bj \<noteq> bi \<longrightarrow> partition_inv (pools s3) (data s3 ! bj)"
    and al: "aligned_inv s3" and lv: "live_inv s3 L"
    and s4: "s4 = s3\<lparr> pools := pools s3 |` (- set (drop e (bm_data (data s3 ! bi)))),
                      internal_btree := internal_btree s3 - set (drop e (bm_data (data s3 ! bi))),
                      data := (data s3)[bi := (data s3 ! bi)\<lparr>bm_data :=
                                 take e (bm_data (data s3 ! bi))\<rparr>] \<rparr>"
  shows "sweep_loop (length (bm_data (data s3 ! bi))) (bm_data (data s3 ! bi))
            (internal_btree s3) (pools s3) =
         Inr (take e (bm_data (data s3 ! bi)),
              internal_btree s3 - set (drop e (bm_data (data s3 ! bi))),
              pools s3 |` (- set (drop e (bm_data (data s3 ! bi)))))"
    and "tbman_inv s3 L" and "tbman_inv s4 L"
proof -
  let ?bm = "data s3 ! bi"
  let ?d = "bm_data ?bm" and ?f = "free_index ?bm"
  let ?n = "length ?d"
  let ?R = "set (drop e ?d)"
  have oth: "\<And>bj. bj < length (data s3) \<Longrightarrow> bj \<noteq> bi \<Longrightarrow> partition_inv (pools s3) (data s3 ! bj)"
    using oth0 by blast
  have stat: "\<And>k. k < length (bm_data (data s3 ! bi)) \<Longrightarrow>
           \<exists>t. pools s3 (bm_data (data s3 ! bi) ! k) = Some t \<and>
             (token_manager_s_is_full t \<longleftrightarrow> k < free_index (data s3 ! bi)) \<and>
             (token_manager_s_is_empty t \<longleftrightarrow> e \<le> k)"
    using stat0 by blast
  note sd = struct_invD[OF st]
  have dist: "distinct ?d" by (rule distinct_bm_data[OF st bi])
  have sub: "set ?d \<subseteq> internal_btree s3"
    using slot_in_dom[OF st bi] sd(7) by auto
  show "sweep_loop ?n ?d (internal_btree s3) (pools s3) =
         Inr (take e ?d, internal_btree s3 - ?R, pools s3 |` (- ?R))"
  proof (rule sweep_loop_eq[OF refl dist en _ sub])
    fix k assume "k < ?n"
    from stat[OF this]
    show "\<exists>tm. pools s3 (?d ! k) = Some tm \<and> (token_manager_s_is_empty tm \<longleftrightarrow> e \<le> k)" by blast
  qed
  have p3: "partition_inv (pools s3) ?bm"
    unfolding partition_inv_def
  proof (intro conjI allI impI)
    show "?f \<le> ?n" using fe en by simp
    show "\<exists>tm. pools s3 (?d ! k) = Some tm \<and> (token_manager_s_is_full tm \<longleftrightarrow> k < ?f)"
      if "k < ?n" for k using stat[OF that] by blast
    show "\<exists>e\<le>?n. \<forall>k<?n. \<exists>tm. pools s3 (?d ! k) = Some tm \<and> (token_manager_s_is_empty tm \<longleftrightarrow> e \<le> k)"
      using en stat by blast
  qed
  show "tbman_inv s3 L"
    unfolding tbman_inv_def
  proof (intro conjI allI impI)
    fix bj assume "bj < length (data s3)"
    then show "partition_inv (pools s3) (data s3 ! bj)" using p3 oth by (cases "bj = bi") simp_all
  qed (rule st al lv)+
  have inR: "?d ! k \<in> ?R \<longleftrightarrow> e \<le> k" if k: "k < ?n" for k
  proof
    assume "?d ! k \<in> ?R"
    then obtain j where j: "j < ?n - e" "drop e ?d ! j = ?d ! k" by (auto simp: in_set_conv_nth)
    then have "?d ! (e + j) = ?d ! k" using en by simp
    moreover have "e + j < ?n" using j(1) by simp
    ultimately have "e + j = k" using dist k by (simp add: nth_eq_iff_index_eq)
    then show "e \<le> k" by simp
  next
    assume "e \<le> k"
    then have "drop e ?d ! (k - e) = ?d ! k" "k - e < length (drop e ?d)" using k by simp_all
    then show "?d ! k \<in> ?R" by (metis nth_mem)
  qed
  have Rsub: "?R \<subseteq> set ?d" by (rule set_drop_subset)
  have d4: "data s4 = (data s3)[bi := ?bm\<lparr>bm_data := take e ?d\<rparr>]" by (simp add: s4)
  have h4: "pools s4 = pools s3 |` (- ?R)" by (simp add: s4)
  have len4: "length (data s4) = length (data s3)" by (simp add: d4)
  have nth4: "data s4 ! bi = ?bm\<lparr>bm_data := take e ?d\<rparr>" using bi by (simp add: d4)
  have nth4': "data s4 ! bj = data s3 ! bj" if "bj \<noteq> bi" for bj using that by (simp add: d4)
  have keep_bi: "pools s4 (?d ! k) = pools s3 (?d ! k)" if "k < e" for k
  proof -
    have "k < ?n" using that en by simp
    from inR[OF this] that show ?thesis by (simp add: h4 restrict_map_def)
  qed
  have keep_other: "pools s4 (bm_data (data s3 ! bj) ! k) = pools s3 (bm_data (data s3 ! bj) ! k)"
    if bj: "bj < length (data s3)" "bj \<noteq> bi" and k: "k < length (bm_data (data s3 ! bj))" for bj k
  proof -
    have "bm_data (data s3 ! bj) ! k \<notin> set ?d"
    proof
      assume "bm_data (data s3 ! bj) ! k \<in> set ?d"
      then obtain j where "j < ?n" "?d ! j = bm_data (data s3 ! bj) ! k" by (auto simp: in_set_conv_nth)
      with slot_unique[OF st bj(1) k bi, of j] bj(2) show False by simp
    qed
    with Rsub show ?thesis by (auto simp: h4 restrict_map_def)
  qed
  have dom4: "dom (pools s4) = dom (pools s3) - ?R" by (auto simp: h4 restrict_map_def dom_def)
  have sub4: "pools s3 a = Some t" "a \<notin> ?R" if "pools s4 a = Some t" for a t
    using that by (auto simp: h4 restrict_map_def split: if_splits)
  have st4: "struct_inv s4"
    unfolding struct_inv_def
  proof (intro conjI allI impI ballI)
    show "length (data s4) = length (block_size_array s4)" using sd(1) len4 by (simp add: s4)
    show "finite (dom (pools s4))" using sd(6) by (simp add: dom4)
    show "internal_btree s4 = dom (pools s4)" using sd(7) dom4 by (simp add: s4)
    show "0 \<notin> dom (pools s4)" using sd(8) by (simp add: dom4)
  next
    fix bj assume "bj < length (data s4)"
    then have bj: "bj < length (data s3)" by (simp add: len4)
    show "bm_pool_size (data s4 ! bj) = pool_size s4"
      using sd(2)[OF bj] bj by (cases "bj = bi") (simp_all add: d4 s4)
    show "bm_block_size (data s4 ! bj) = block_size_array s4 ! bj"
      using sd(3)[OF bj] bj by (cases "bj = bi") (simp_all add: d4 s4)
    fix k assume k4: "k < length (bm_data (data s4 ! bj))"
    show "slot_inv (pools s4) (pool_size s4) bj (data s4 ! bj) k"
    proof (cases "bj = bi")
      case True
      from k4 True have ke: "k < e" "k < ?n" by (simp_all add: nth4)
      have "slot_inv (pools s4) (pool_size s3) bi (data s4 ! bi) k
              = slot_inv (pools s3) (pool_size s3) bi ?bm k"
        using ke keep_bi[OF ke(1)] by (intro slot_inv_cong) (simp_all add: nth4)
      with sd(4)[OF bi ke(2)] True show ?thesis by (simp add: s4)
    next
      case False
      from k4 False have k: "k < length (bm_data (data s3 ! bj))" by (simp add: nth4')
      have "slot_inv (pools s4) (pool_size s3) bj (data s4 ! bj) k
              = slot_inv (pools s3) (pool_size s3) bj (data s3 ! bj) k"
        using keep_other[OF bj False k] False by (intro slot_inv_cong) (simp_all add: nth4')
      with sd(4)[OF bj k] show ?thesis by (simp add: s4)
    qed
  next
    fix a t assume "pools s4 a = Some t"
    note a = sub4[OF this]
    from sd(5)[OF a(1)] obtain bj where bj: "bj < length (data s3)" "parent t = Some bj"
      "parent_index t < length (bm_data (data s3 ! bj))" "bm_data (data s3 ! bj) ! parent_index t = a"
      by blast
    show "\<exists>bi<length (data s4). parent t = Some bi \<and>
            parent_index t < length (bm_data (data s4 ! bi)) \<and>
            bm_data (data s4 ! bi) ! parent_index t = a"
    proof (cases "bj = bi")
      case False
      with bj show ?thesis by (auto simp: len4 nth4')
    next
      case True
      with bj have pi: "parent_index t < ?n" "?d ! parent_index t = a" by simp_all
      from inR[OF pi(1)] a(2) pi(2) have "parent_index t < e" by auto
      with pi bj(1,2) True show ?thesis by (auto simp: len4 nth4)
    qed
  next
    fix a b assume "a \<in> dom (pools s4) \<and> b \<in> dom (pools s4) \<and> a \<noteq> b"
    then show "a + pool_size s4 \<le> b \<or> b + pool_size s4 \<le> a"
      using sd(9)[of a b] by (simp add: dom4) (simp add: s4)
  next
    fix a assume "a \<in> dom (pools s4)"
    then show "a + pool_size s4 \<le> 2 ^ 64" using sd(10)[of a] by (simp add: dom4) (simp add: s4)
  next
    fix x n assume "external_btree s4 x = Some n"
    then have x: "external_btree s3 x = Some n" by (simp add: s4)
    from sd(11)[OF x] show "0 < n" "x \<noteq> 0" "x + n \<le> 2 ^ 64" by simp_all
    fix a assume "a \<in> dom (pools s4)"
    then have "a \<in> dom (pools s3)" by (simp add: dom4)
    with sd(11)[OF x] show "x + n \<le> a \<or> a + pool_size s4 \<le> x" by (simp add: s4)
  qed
  have p4: "partition_inv (pools s4) (data s4 ! bj)" if bj4: "bj < length (data s4)" for bj
  proof (cases "bj = bi")
    case True
    have "partition_inv (pools s4) (?bm\<lparr>bm_data := take e ?d\<rparr>)"
      unfolding partition_inv_def
    proof (intro conjI allI impI)
      show "free_index (?bm\<lparr>bm_data := take e ?d\<rparr>) \<le> length (bm_data (?bm\<lparr>bm_data := take e ?d\<rparr>))"
        using fe en by simp
      show "\<exists>tm. pools s4 (bm_data (?bm\<lparr>bm_data := take e ?d\<rparr>) ! k) = Some tm \<and>
             (token_manager_s_is_full tm \<longleftrightarrow> k < free_index (?bm\<lparr>bm_data := take e ?d\<rparr>))"
        if "k < length (bm_data (?bm\<lparr>bm_data := take e ?d\<rparr>))" for k
      proof -
        from that have ke: "k < e" "k < ?n" by simp_all
        from stat[OF ke(2)] keep_bi[OF ke(1)] ke show ?thesis by auto
      qed
      have "\<forall>k<length (bm_data (?bm\<lparr>bm_data := take e ?d\<rparr>)).
              \<exists>tm. pools s4 (bm_data (?bm\<lparr>bm_data := take e ?d\<rparr>) ! k) = Some tm \<and>
                (token_manager_s_is_empty tm \<longleftrightarrow> length (bm_data (?bm\<lparr>bm_data := take e ?d\<rparr>)) \<le> k)"
      proof (intro allI impI)
        fix k assume "k < length (bm_data (?bm\<lparr>bm_data := take e ?d\<rparr>))"
        then have ke: "k < e" "k < ?n" by simp_all
        from stat[OF ke(2)] keep_bi[OF ke(1)] ke en
        show "\<exists>tm. pools s4 (bm_data (?bm\<lparr>bm_data := take e ?d\<rparr>) ! k) = Some tm \<and>
                (token_manager_s_is_empty tm \<longleftrightarrow> length (bm_data (?bm\<lparr>bm_data := take e ?d\<rparr>)) \<le> k)"
          by auto
      qed
      then show "\<exists>e'\<le>length (bm_data (?bm\<lparr>bm_data := take e ?d\<rparr>)).
              \<forall>k<length (bm_data (?bm\<lparr>bm_data := take e ?d\<rparr>)).
              \<exists>tm. pools s4 (bm_data (?bm\<lparr>bm_data := take e ?d\<rparr>) ! k) = Some tm \<and>
                (token_manager_s_is_empty tm \<longleftrightarrow> e' \<le> k)" by blast
    qed
    with True show ?thesis by (simp add: nth4)
  next
    case False
    have bj: "bj < length (data s3)" using bj4 by (simp add: len4)
    have "partition_inv (pools s4) (data s3 ! bj) = partition_inv (pools s3) (data s3 ! bj)"
    proof (rule partition_inv_cong)
      fix a assume "a \<in> set (bm_data (data s3 ! bj))"
      then obtain k where k: "k < length (bm_data (data s3 ! bj))" "bm_data (data s3 ! bj) ! k = a"
        by (auto simp: in_set_conv_nth)
      from keep_other[OF bj False k(1)] k(2) show "pools s4 a = pools s3 a" by simp
    qed simp_all
    with oth[OF bj False] False show ?thesis by (simp add: nth4')
  qed
  have al4: "aligned_inv s4"
  proof -
    have fl: "bm_aligned (data s4 ! bj) = bm_aligned (data s3 ! bj)" if "bj < length (data s3)" for bj
      using that by (cases "bj = bi") (simp_all add: d4)
    have ent: "bm_data (data s4 ! bj) ! k AND (pool_size s3 - 1) = 0"
      if bj: "bj < length (data s3)" and a: "bm_aligned (data s3 ! bj)"
        and k: "k < length (bm_data (data s4 ! bj))" for bj k
    proof (cases "bj = bi")
      case False
      with al bj a k show ?thesis by (simp add: nth4' aligned_inv_def)
    next
      case True
      with k have ke: "k < e" "k < ?n" by (simp_all add: nth4)
      from al bi a True ke(2) have "?d ! k AND (pool_size s3 - 1) = 0" by (simp add: aligned_inv_def)
      with True ke show ?thesis by (simp add: nth4)
    qed
    have "aligned s4 = aligned s3" "pool_size s4 = pool_size s3" by (simp_all add: s4)
    then show ?thesis unfolding aligned_inv_def using al fl ent
      by (simp add: len4 aligned_inv_def)
  qed
  have lv4: "live_inv s4 L"
    unfolding live_inv_def
  proof
    fix q assume "q \<in> L"
    with lv have "q \<in> dom (external_btree s3) \<or> (\<exists>a tm. pools s3 a = Some tm \<and> live_block a tm q)"
      by (simp add: live_inv_def)
    then show "q \<in> dom (external_btree s4) \<or> (\<exists>a tm. pools s4 a = Some tm \<and> live_block a tm q)"
    proof
      assume "q \<in> dom (external_btree s3)"
      then show ?thesis by (simp add: s4)
    next
      assume "\<exists>a tm. pools s3 a = Some tm \<and> live_block a tm q"
      then obtain a t where a: "pools s3 a = Some t" "live_block a t q" by blast
      have "a \<notin> ?R"
      proof
        assume "a \<in> ?R"
        then have "a \<in> set ?d" using Rsub by blast
        then obtain k where k: "k < ?n" "?d ! k = a" by (auto simp: in_set_conv_nth)
        with inR[OF k(1)] \<open>a \<in> ?R\<close> have "e \<le> k" by simp
        with stat[OF k(1)] k(2) a(1) have "token_manager_s_is_empty t" by simp
        from empty_not_live[OF pool_tm(2)[OF st a(1)] this] a(2) show False by simp
      qed
      with a(1) have "pools s4 a = Some t" by (simp add: h4 restrict_map_def)
      with a(2) show ?thesis by blast
    qed
  qed
  show "tbman_inv s4 L"
    unfolding tbman_inv_def using st4 p4 al4 lv4 by blast
qed

lemma live_block_ptr:
  assumes "live_block a tm p"
  shows "a + (p - a) div tm_block_size tm * tm_block_size tm = p"
proof -
  from assms have "a \<le> p" "(p - a) mod tm_block_size tm = 0" by (simp_all add: live_block_def)
  then show ?thesis using div_mult_mod_eq[of "p - a" "tm_block_size tm"] by simp
qed

lemma token_manager_s_free_inv:
  fixes s :: tbman_s
  assumes inv: "tbman_inv s L" and tm: "pools s child = Some tm" and live: "live_block child tm p"
  shows "\<exists>s'. token_manager_s_free child p s = Inr s' \<and> tbman_inv s' (L - {p}) \<and>
           pool_size s' = pool_size s \<and> block_size_array s' = block_size_array s \<and>
           external_btree s' = external_btree s \<and> max_block_size s' = max_block_size s \<and>
           aligned s' = aligned s \<and> length (data s') = length (data s) \<and>
           dom (pools s') \<subseteq> dom (pools s) \<and>
           (\<forall>bj<length (data s). bm_aligned (data s' ! bj) = bm_aligned (data s ! bj)) \<and>
           (\<forall>a t q. pools s' a = Some t \<and> live_block a t q \<longrightarrow>
               (\<exists>t0. pools s a = Some t0 \<and> live_block a t0 q)) \<and>
           (\<forall>a t. pools s' a = Some t \<longrightarrow> \<not> live_block a t p) \<and>
           (\<forall>tm'. pools s' child = Some tm' \<longrightarrow>
               (\<exists>tm''. token_manager_s_alloc child tm' = Inr (p, tm'')))"
proof -
  from inv have st: "struct_inv s" by (simp add: tbman_inv_def)
  note pt = pool_tm[OF st tm]
  from pt(4) obtain bi where bi: "bi < length (data s)" and par: "parent tm = Some bi" by blast
  define c1 where "c1 = (if token_manager_s_is_full tm then free_index (data s ! bi) - 1
                   else parent_index tm)"
  define s1 where "s1 = (if token_manager_s_is_full tm
                   then set_free_index bi (free_index (data s ! bi) - 1)
                          (swap_slots bi (parent_index tm) (free_index (data s ! bi) - 1) s)
                   else s)"
  note A = free_step_A[OF inv tm par live c1_def s1_def]
  define tm1 where "tm1 = tm\<lparr>parent_index := c1\<rparr>"
  have tm1: "pools s1 child = Some tm1" using A(4) by (simp add: tm1_def)
  have par1: "parent tm1 = Some bi" using par by (simp add: tm1_def)
  have pi1: "parent_index tm1 = c1" by (simp add: tm1_def)
  have live1: "live_block child tm1 p" using live by (simp add: tm1_def)
  from A(6) obtain e where pe: "partition_except (pools s1) (data s1 ! bi) (parent_index tm1) e"
    unfolding pi1 by blast
  define tm2 where "tm2 = tm1\<lparr>stack_index := stack_index tm1 - 1,
                token_stack := (token_stack tm1)(stack_index tm1 - 1 :=
                   (p - child) div tm_block_size tm1)\<rparr>"
  define s2 where "s2 = s1\<lparr>pools := (pools s1)(child \<mapsto> tm2)\<rparr>"
  have A7: "\<forall>bj<length (data s1). bj \<noteq> bi \<longrightarrow> partition_inv (pools s1) (data s1 ! bj)"
    using A(7) by blast
  note B = free_step_B[OF A(2) tm1 par1 pe A7 A(8) A(9) live1 tm2_def s2_def]
  have B0: "tm_block_size tm \<noteq> 0" using pt(2) by (simp add: tm_inv_def)
  note tf = tm_free_ok(1)[OF pt(2) live] tm_free_ok(2)[OF pt(2) live]
  have eq1: "token_manager_s_free child p s =
      (if stack_index tm - 1 = 0 then block_manager_s_free_to_empty bi child s2 else Inr s2)"
  proof (cases "token_stack tm (stack_index tm) = 0")
    case True
    with A(1) have f: "block_manager_s_full_to_free bi child s = Inr s1" by simp
    show ?thesis using tm par B0 True f A(4) tf
      by (simp add: token_manager_s_free_def Let_def s2_def tm2_def tm1_def)
  next
    case False
    with A(1) have f: "s1 = s" by simp
    show ?thesis using tm par B0 False A(4) tf unfolding f
      by (simp add: token_manager_s_free_def Let_def s2_def tm2_def tm1_def f)
  qed
  have h2: "pools s2 child = Some tm2" by (simp add: s2_def)
  have d2: "data s2 = data s1" by (simp add: s2_def)
  have dom2: "dom (pools s2) = dom (pools s1)" using tm1 by (auto simp: s2_def)
  have fr2: "pool_size s2 = pool_size s" "block_size_array s2 = block_size_array s"
    "external_btree s2 = external_btree s" "max_block_size s2 = max_block_size s"
    "aligned s2 = aligned s" "length (data s2) = length (data s)"
    using A(10-14) A(16) by (simp_all add: s2_def)
  have al2: "\<And>bj. bj < length (data s) \<Longrightarrow> bm_aligned (data s2 ! bj) = bm_aligned (data s ! bj)"
    using A(18) by (simp add: d2)
  have lb2: "\<exists>t0. pools s a = Some t0 \<and> live_block a t0 q"
    if a: "pools s2 a = Some t" "live_block a t q" for a t q
  proof -
    from B(9)[OF a] obtain t1 where t1: "pools s1 a = Some t1" "live_block a t1 q" by blast
    from t1(1) have "a \<in> dom (pools s)" using A(15) by blast
    then obtain t0 where t0: "pools s a = Some t0" by blast
    from A(17)[OF t0] t1 have "live_block a t0 q" by auto
    with t0 show ?thesis by blast
  qed
  have alloc2: "\<exists>tm''. token_manager_s_alloc child (tm2\<lparr>parent_index := k\<rparr>) = Inr (p, tm'')" for k
  proof -
    have ti: "tm_inv (tm2\<lparr>parent_index := k\<rparr>)" using B(8) by simp
    have nf: "\<not> token_manager_s_is_full (tm2\<lparr>parent_index := k\<rparr>)" using B(3) by simp
    from tm_alloc_ok(1)[OF ti nf, of child] live_block_ptr[OF live]
    show ?thesis by (simp add: tm2_def tm1_def)
  qed
  show ?thesis
  proof (cases "stack_index tm - 1 = 0")
    case False
    then have ne: "\<not> token_manager_s_is_empty tm2"
      by (simp add: token_manager_s_is_empty_def tm2_def tm1_def)
    have eq: "token_manager_s_free child p s = Inr s2" using eq1 False by simp
    have inv2: "tbman_inv s2 (L - {p})"
      unfolding tbman_inv_def
    proof (intro conjI allI impI)
      fix bj assume "bj < length (data s2)"
      then show "partition_inv (pools s2) (data s2 ! bj)"
        using B(4)[OF ne] B(5) by (cases "bj = bi") simp_all
    qed (rule B)+
    have "\<forall>tm'. pools s2 child = Some tm' \<longrightarrow>
               (\<exists>tm''. token_manager_s_alloc child tm' = Inr (p, tm''))"
      using alloc2[of "parent_index tm2"] h2 by simp
    moreover have "dom (pools s2) \<subseteq> dom (pools s)" using dom2 A(15) by simp
    ultimately show ?thesis using eq inv2 fr2 al2 lb2 B(10) by blast
  next
    case True
    then have emp: "token_manager_s_is_empty tm2"
      by (simp add: token_manager_s_is_empty_def tm2_def tm1_def)
    have par2: "parent tm2 = Some bi" using par1 by (simp add: tm2_def)
    have pi2: "parent_index tm2 = parent_index tm1" by (simp add: tm2_def)
    have pe2: "partition_except (pools s2) (data s2 ! bi) (parent_index tm2) e"
      using B(2) by (simp add: pi2)
    define s3 where "s3 = (if parent_index tm2 < e - 1
                           then swap_slots bi (parent_index tm2) (e - 1) s2 else s2)"
    note C = free_step_C[OF B(1) h2 par2 pe2 emp B(3) s3_def]
    have bi2: "bi < length (data s2)" using bi fr2(6) by simp
    note ped = partition_exceptD[OF pe2]
    have x: "parent_index tm2 < length (bm_data (data s2 ! bi))" using ped(2,3) by simp
    have B5: "\<forall>bj<length (data s2). bj \<noteq> bi \<longrightarrow> partition_inv (pools s2) (data s2 ! bj)"
      using B(5) by blast
    note SI = swap_if_inv[OF B(1) bi2 x C(4) B5 B(6) B(7) s3_def]
    have bi3: "bi < length (data s3)" using bi2 SI(11) by simp
    define s4 where "s4 = s3\<lparr> pools := pools s3 |` (- set (drop (e - 1) (bm_data (data s3 ! bi)))),
                      internal_btree := internal_btree s3 - set (drop (e - 1) (bm_data (data s3 ! bi))),
                      data := (data s3)[bi := (data s3 ! bi)\<lparr>bm_data :=
                                 take (e - 1) (bm_data (data s3 ! bi))\<rparr>] \<rparr>"
    have stat: "\<forall>k<length (bm_data (data s3 ! bi)).
           \<exists>t. pools s3 (bm_data (data s3 ! bi) ! k) = Some t \<and>
             (token_manager_s_is_full t \<longleftrightarrow> k < free_index (data s3 ! bi)) \<and>
             (token_manager_s_is_empty t \<longleftrightarrow> e - 1 \<le> k)"
      using C(2) by (simp add: C(5) C(6))
    have SI2: "\<forall>bj<length (data s3). bj \<noteq> bi \<longrightarrow> partition_inv (pools s3) (data s3 ! bj)"
      using SI(2) by blast
    have fe: "free_index (data s3 ! bi) \<le> e - 1" using C(3) by (simp add: C(6))
    have en: "e - 1 \<le> length (bm_data (data s3 ! bi))" using C(4) by (simp add: C(5))
    note D = free_step_D[OF SI(1) bi3 stat fe en SI2 SI(3) SI(4) s4_def]
    define fire where "fire \<longleftrightarrow>
       (of_nat (length (bm_data (data s2 ! bi)) - (e - 1)) :: rat) >
         of_nat (length (bm_data (data s3 ! bi)) - (length (bm_data (data s2 ! bi)) - (e - 1)))
           * sweep_hysteresis (data s3 ! bi)"
    have "block_manager_s_free_to_empty bi child s2 = Inr (if fire then s4 else s3)"
      unfolding block_manager_s_free_to_empty_def C(1) Let_def sum.case prod.case D(1)
        fire_def[symmetric]
      by (cases fire) (simp_all add: s4_def)
    then have eq: "token_manager_s_free child p s = Inr (if fire then s4 else s3)"
      using eq1 True by simp
    have sub3: "dom (pools s3) \<subseteq> dom (pools s)" using SI(10) dom2 A(15) by simp
    have lb3: "\<exists>t0. pools s a = Some t0 \<and> live_block a t0 q"
      if a: "pools s3 a = Some t" "live_block a t q" for a t q
    proof -
      from a(1) have "a \<in> dom (pools s2)" using SI(10) by blast
      then obtain t2 where t2: "pools s2 a = Some t2" by blast
      from SI(12)[OF t2] a have "live_block a t2 q" by auto
      from lb2[OF t2 this] show ?thesis .
    qed
    have ch3: "\<exists>k. tm' = tm2\<lparr>parent_index := k\<rparr>" if "pools s3 child = Some tm'" for tm'
      using SI(12)[OF h2] that by auto
    have al3: "\<And>bj. bj < length (data s) \<Longrightarrow> bm_aligned (data s3 ! bj) = bm_aligned (data s ! bj)"
      using SI(13) al2 fr2(6) by simp
    have fr3: "pool_size s3 = pool_size s" "block_size_array s3 = block_size_array s"
      "external_btree s3 = external_btree s" "max_block_size s3 = max_block_size s"
      "aligned s3 = aligned s" "length (data s3) = length (data s)"
      using SI(5-9) SI(11) fr2 by simp_all
    have nl3: "\<not> live_block a t p" if a: "pools s3 a = Some t" for a t
    proof -
      from a have "a \<in> dom (pools s2)" using SI(10) by blast
      then obtain t2 where t2: "pools s2 a = Some t2" by blast
      from SI(12)[OF t2] a B(10)[OF t2] show ?thesis by auto
    qed
    show ?thesis
    proof (cases fire)
      case False
      have "\<forall>tm'. pools s3 child = Some tm' \<longrightarrow>
               (\<exists>tm''. token_manager_s_alloc child tm' = Inr (p, tm''))"
        using ch3 alloc2 by blast
      moreover have "token_manager_s_free child p s = Inr s3" using eq False by simp
      ultimately show ?thesis using D(2) fr3 al3 lb3 nl3 sub3 by blast
    next
      case True
      have sub43: "pools s3 a = Some t" if "pools s4 a = Some t" for a t
        using that by (auto simp: s4_def restrict_map_def split: if_splits)
      have "\<forall>tm'. pools s4 child = Some tm' \<longrightarrow>
               (\<exists>tm''. token_manager_s_alloc child tm' = Inr (p, tm''))"
        using ch3 alloc2 sub43 by blast
      moreover have "token_manager_s_free child p s = Inr s4" using eq True by simp
      moreover have "dom (pools s4) \<subseteq> dom (pools s)" using sub3 sub43 by blast
      moreover have "pool_size s4 = pool_size s" "block_size_array s4 = block_size_array s"
        "external_btree s4 = external_btree s" "max_block_size s4 = max_block_size s"
        "aligned s4 = aligned s" "length (data s4) = length (data s)"
        using fr3 by (simp_all add: s4_def)
      moreover have "\<forall>bj<length (data s). bm_aligned (data s4 ! bj) = bm_aligned (data s ! bj)"
      proof (intro allI impI)
        fix bj assume bj: "bj < length (data s)"
        then have "bm_aligned (data s4 ! bj) = bm_aligned (data s3 ! bj)"
          using fr3(6) by (cases "bj = bi") (simp_all add: s4_def)
        with al3[OF bj] show "bm_aligned (data s4 ! bj) = bm_aligned (data s ! bj)" by simp
      qed
      moreover have "\<forall>a t q. pools s4 a = Some t \<and> live_block a t q \<longrightarrow>
               (\<exists>t0. pools s a = Some t0 \<and> live_block a t0 q)"
        using sub43 lb3 by blast
      moreover have "\<forall>a t. pools s4 a = Some t \<longrightarrow> \<not> live_block a t p"
        using sub43 nl3 by blast
      ultimately show ?thesis using D(3) by blast
    qed
  qed
qed
section \<open>The operations of the memory manager preserve the invariants\<close>

lemma and_not_add_and_int: fixes x k :: int
  shows "(x AND NOT k) + (x AND k) = x"
  by (metis add.commute and.left_commute and.right_neutral and_zero_eq
    bit.conj_cancel_right bit.conj_disj_distrib bit.disj_cancel_right
    disjunctive_add_eq_or)

lemma and_le_nat: "(p::nat) AND m \<le> p" "(p::nat) AND m \<le> m"
proof -
  show "p AND m \<le> p"
    by (metis AND_upper1 of_nat_0_le_iff of_nat_and_eq of_nat_le_iff)
  then show "p AND m \<le> m" 
    by (metis AND_upper2 of_nat_0_le_iff of_nat_and_eq of_nat_le_iff)
qed

lemma mask_split_nat:
  fixes p m :: nat
  assumes p: "p < 2 ^ 64" and m: "m < 2 ^ 64"
  shows "(p AND (2 ^ 64 - 1 - m)) + (p AND m) = p"
proof -
  let ?x = "int p" and ?k = "int m"
  have "int (2 ^ 64 - 1 - m) = 2 ^ 64 - 1 - ?k" using m by (simp add: of_nat_diff)
  also have "\<dots> = mask 64 - take_bit 64 ?k" using m by (simp add: mask_eq_exp_minus_1 take_bit_int_eq_self)
  also have "\<dots> = take_bit 64 (NOT ?k)" by (simp add: take_bit_not_eq_mask_diff)
  finally have 1: "int (2 ^ 64 - 1 - m) = take_bit 64 (NOT ?k)" .
  have tx: "take_bit 64 ?x = ?x" using p by (simp add: take_bit_int_eq_self)
  have "?x AND take_bit 64 (NOT ?k) = take_bit 64 ?x AND NOT ?k"
    by (simp add: take_bit_eq_mask and.assoc and.left_commute and.commute)
  then have 2: "?x AND take_bit 64 (NOT ?k) = ?x AND NOT ?k" using tx by simp
  have "int ((p AND (2 ^ 64 - 1 - m)) + (p AND m)) = (?x AND NOT ?k) + (?x AND ?k)"
    using 1 2 by (simp only: of_nat_add of_nat_and_eq)
  also have "\<dots> = ?x" by (rule and_not_add_and_int)
  finally show ?thesis by (simp only: of_nat_eq_iff)
qed

lemma owner_by_mask_range:
  assumes "p < 2 ^ 64" "0 < pool_size s" "pool_size s \<le> 2 ^ 64"
  shows "owner_by_mask s p \<le> p" "p < owner_by_mask s p + pool_size s"
proof -
  let ?m = "pool_size s - 1"
  have m: "?m < 2 ^ 64" using assms(2,3) by simp
  have e: "(2::nat) ^ 64 + pool_size s - 1 = ?m + 2 ^ 64" using assms(2) by simp
  have "(?m + 2 ^ 64) mod 2 ^ 64 = ?m" using m by (simp only: mod_add_self2 mod_less)
  then have sz: "size_t (2 ^ 64 + pool_size s - 1) = ?m" unfolding size_t_def e .
  show "owner_by_mask s p \<le> p" unfolding owner_by_mask_def by (rule and_le_nat)
  from mask_split_nat[OF assms(1) m] and_le_nat(2)[of p ?m] assms(2)
  show "p < owner_by_mask s p + pool_size s" unfolding owner_by_mask_def sz by linarith
qed


lemma owner_by_tree_in:
  assumes st: "struct_inv s" and a: "pools s a = Some tm" and r: "a \<le> p" "p < a + pool_size s"
  shows "owner_by_tree s p = a"
proof -
  note sd = struct_invD[OF st]
  let ?K = "{k \<in> internal_btree s. k \<le> p}"
  have ad: "a \<in> dom (pools s)" using a by blast
  have aK: "a \<in> ?K" using ad r(1) sd(7) by simp
  have fin: "finite ?K" using sd(6,7) by simp
  have "Max ?K = a"
  proof (rule Max_eqI[OF fin _ aK])
    fix k assume "k \<in> ?K"
    then have k: "k \<in> dom (pools s)" "k \<le> p" using sd(7) by simp_all
    show "k \<le> a"
    proof (cases "k = a")
      case False
      from sd(9)[OF k(1) ad False] k(2) r(2) show ?thesis by linarith
    qed simp
  qed
  moreover have "a \<noteq> 0" using ad sd(8) by auto
  moreover have "p - a < pool_size s" using r by linarith
  ultimately show ?thesis using aK
    by (auto simp: owner_by_tree_def btree_vd_s_largest_below_equal_def Let_def)
qed

lemma owner_by_tree_out:
  assumes st: "struct_inv s" and o: "owner_by_tree s p \<noteq> 0"
  shows "owner_by_tree s p \<in> dom (pools s)" "owner_by_tree s p \<le> p"
    "p < owner_by_tree s p + pool_size s"
proof -
  note sd = struct_invD[OF st]
  let ?K = "{k \<in> internal_btree s. k \<le> p}"
  let ?b = "btree_vd_s_largest_below_equal (internal_btree s) p"
  from o have b: "?b \<noteq> 0" "p - ?b < pool_size s" "owner_by_tree s p = ?b"
    by (auto simp: owner_by_tree_def Let_def split: if_splits)
  from b(1) have ne: "?K \<noteq> {}" "?b = Max ?K"
    by (auto simp: btree_vd_s_largest_below_equal_def split: if_splits)
  have fin: "finite ?K" using sd(6,7) by simp
  from Max_in[OF fin ne(1)] ne(2) have "?b \<in> ?K" by simp
  then have bk: "?b \<in> dom (pools s)" "?b \<le> p" using sd(7) by simp_all
  show "owner_by_tree s p \<in> dom (pools s)" "owner_by_tree s p \<le> p" using bk b(3) by simp_all
  show "p < owner_by_tree s p + pool_size s" using b(2,3) bk(2) by linarith
qed

lemma owner_by_tree_zero:
  assumes st: "struct_inv s" and o: "owner_by_tree s p = 0" and a: "pools s a = Some tm"
  shows "\<not> (a \<le> p \<and> p < a + pool_size s)"
proof
  assume "a \<le> p \<and> p < a + pool_size s"
  then have "owner_by_tree s p = a" using owner_by_tree_in[OF st a] by simp
  with o have "a = 0" by simp
  with a struct_invD(8)[OF st] show False by auto
qed

lemma owner_live:
  assumes st: "struct_inv s" and lv: "live_inv s L" and p: "p \<in> L"
    and a: "pools s a = Some tm" and r: "a \<le> p" "p < a + pool_size s"
  shows "live_block a tm p"
proof -
  note sd = struct_invD[OF st]
  have ad: "a \<in> dom (pools s)" using a by blast
  from lv p have "p \<in> dom (external_btree s) \<or> (\<exists>b t. pools s b = Some t \<and> live_block b t p)"
    by (simp add: live_inv_def)
  then show ?thesis
  proof
    assume "p \<in> dom (external_btree s)"
    then obtain n where n: "external_btree s p = Some n" by blast
    from sd(11)[OF n] ad have "0 < n" "p + n \<le> a \<or> a + pool_size s \<le> p" by simp_all
    with r show ?thesis by linarith
  next
    assume "\<exists>b t. pools s b = Some t \<and> live_block b t p"
    then obtain b t where b: "pools s b = Some t" "live_block b t p" by blast
    note pb = pool_tm(2,1)[OF st b(1)]
    from live_block_range[OF pb(1) b(2)] pb(2) have rb: "b < p" "p < b + pool_size s" by simp_all
    have "b = a"
    proof (rule ccontr)
      assume ne: "b \<noteq> a"
      have "b \<in> dom (pools s)" using b(1) by blast
      from sd(9)[OF this ad ne] r rb show False by linarith
    qed
    with a b show ?thesis by simp
  qed
qed

lemma live_range:
  assumes st: "struct_inv s" and lv: "live_inv s L" and p: "p \<in> L"
  shows "0 < p" "p < 2 ^ 64"
proof -
  note sd = struct_invD[OF st]
  from lv p have "p \<in> dom (external_btree s) \<or> (\<exists>b t. pools s b = Some t \<and> live_block b t p)"
    by (simp add: live_inv_def)
  then have "0 < p \<and> p < 2 ^ 64"
  proof
    assume "p \<in> dom (external_btree s)"
    then obtain n where n: "external_btree s p = Some n" by blast
    from sd(11)[OF n] have "0 < n" "p \<noteq> 0" "p + n \<le> 2 ^ 64" by simp_all
    then show ?thesis by linarith
  next
    assume "\<exists>b t. pools s b = Some t \<and> live_block b t p"
    then obtain b t where b: "pools s b = Some t" "live_block b t p" by blast
    note pb = pool_tm(2,1)[OF st b(1)]
    from live_block_range[OF pb(1) b(2)] pb(2) have rb: "b < p" "p < b + pool_size s" by simp_all
    have "b \<in> dom (pools s)" using b(1) by blast
    from sd(10)[OF this] rb show ?thesis by linarith
  qed
  then show "0 < p" "p < 2 ^ 64" by simp_all
qed

lemma pool_size_bounds:
  assumes st: "struct_inv s" and a: "pools s a = Some tm"
  shows "0 < pool_size s" "pool_size s \<le> 2 ^ 64"
proof -
  note pt = pool_tm(2,1)[OF st a]
  from pt(1) have "0 < tm_block_size tm" "tm_pool_size tm \<le> 2 ^ 64"
    "reserved_blocks (tm_pool_size tm) (tm_block_size tm) < tm_pool_size tm div tm_block_size tm"
    by (simp_all add: tm_inv_def)
  then have "0 < tm_pool_size tm div tm_block_size tm" by simp
  then have "0 < tm_pool_size tm" by (metis div_0 gr0I less_numeral_extra(3))
  with pt(2) show "0 < pool_size s" by simp
  from \<open>tm_pool_size tm \<le> 2 ^ 64\<close> pt(2) show "pool_size s \<le> 2 ^ 64" by simp
qed

lemma owner_by_mask_live:
  assumes st: "struct_inv s" and lv: "live_inv s L" and p: "p \<in> L"
    and a: "pools s (owner_by_mask s p) = Some tm"
  shows "live_block (owner_by_mask s p) tm p"
proof -
  note pb = pool_size_bounds[OF st a]
  note lr = live_range[OF st lv p]
  from owner_by_mask_range[OF lr(2) pb] show ?thesis
    by (intro owner_live[OF st lv p a]) simp_all
qed

lemma owner_by_tree_live:
  assumes st: "struct_inv s" and lv: "live_inv s L" and p: "p \<in> L"
    and o: "owner_by_tree s p \<noteq> 0"
  shows "\<exists>tm. pools s (owner_by_tree s p) = Some tm \<and> live_block (owner_by_tree s p) tm p"
proof -
  note ot = owner_by_tree_out[OF st o]
  from ot(1) obtain tm where a: "pools s (owner_by_tree s p) = Some tm" by blast
  from owner_live[OF st lv p a ot(2,3)] a show ?thesis by blast
qed

lemma token_manager_s_free_invD:
  fixes s :: tbman_s
  assumes inv: "tbman_inv s L" and tm: "pools s child = Some tm" and live: "live_block child tm p"
    and r: "token_manager_s_free child p s = Inr s'"
  shows "tbman_inv s' (L - {p})"
    and "pool_size s' = pool_size s" and "block_size_array s' = block_size_array s"
    and "external_btree s' = external_btree s" and "max_block_size s' = max_block_size s"
    and "aligned s' = aligned s" and "length (data s') = length (data s)"
    and "dom (pools s') \<subseteq> dom (pools s)"
    and "\<And>bj. bj < length (data s) \<Longrightarrow> bm_aligned (data s' ! bj) = bm_aligned (data s ! bj)"
    and "\<And>a t q. pools s' a = Some t \<Longrightarrow> live_block a t q \<Longrightarrow>
               \<exists>t0. pools s a = Some t0 \<and> live_block a t0 q"
    and "\<And>a t. pools s' a = Some t \<Longrightarrow> \<not> live_block a t p"
    and "\<And>tm'. pools s' child = Some tm' \<Longrightarrow> \<exists>tm''. token_manager_s_alloc child tm' = Inr (p, tm'')"
proof -
  from token_manager_s_free_inv[OF inv tm live] obtain s'' where
    e: "token_manager_s_free child p s = Inr s''" and
    f0: "tbman_inv s'' (L - {p}) \<and>
       pool_size s'' = pool_size s \<and> block_size_array s'' = block_size_array s \<and>
       external_btree s'' = external_btree s \<and> max_block_size s'' = max_block_size s \<and>
       aligned s'' = aligned s \<and> length (data s'') = length (data s) \<and>
       dom (pools s'') \<subseteq> dom (pools s) \<and>
       (\<forall>bj<length (data s). bm_aligned (data s'' ! bj) = bm_aligned (data s ! bj)) \<and>
       (\<forall>a t q. pools s'' a = Some t \<and> live_block a t q \<longrightarrow>
               (\<exists>t0. pools s a = Some t0 \<and> live_block a t0 q)) \<and>
       (\<forall>a t. pools s'' a = Some t \<longrightarrow> \<not> live_block a t p) \<and>
       (\<forall>tm'. pools s'' child = Some tm' \<longrightarrow>
               (\<exists>tm''. token_manager_s_alloc child tm' = Inr (p, tm'')))"
    by blast
  from f0 have
    f: "tbman_inv s'' (L - {p})"
       "pool_size s'' = pool_size s" "block_size_array s'' = block_size_array s"
       "external_btree s'' = external_btree s" "max_block_size s'' = max_block_size s"
       "aligned s'' = aligned s" "length (data s'') = length (data s)"
       "dom (pools s'') \<subseteq> dom (pools s)"
       "\<forall>bj<length (data s). bm_aligned (data s'' ! bj) = bm_aligned (data s ! bj)"
       "\<forall>a t q. pools s'' a = Some t \<and> live_block a t q \<longrightarrow>
               (\<exists>t0. pools s a = Some t0 \<and> live_block a t0 q)"
       "\<forall>a t. pools s'' a = Some t \<longrightarrow> \<not> live_block a t p"
       "\<forall>tm'. pools s'' child = Some tm' \<longrightarrow>
               (\<exists>tm''. token_manager_s_alloc child tm' = Inr (p, tm''))"
    by blast+
  from e r have eq: "s'' = s'" by simp
  show "tbman_inv s' (L - {p})" using f(1) by (simp add: eq)
  show "pool_size s' = pool_size s" "block_size_array s' = block_size_array s"
    "external_btree s' = external_btree s" "max_block_size s' = max_block_size s"
    "aligned s' = aligned s" "length (data s') = length (data s)"
    "dom (pools s') \<subseteq> dom (pools s)"
    using f(2-8) by (simp_all add: eq)
  show "\<And>bj. bj < length (data s) \<Longrightarrow> bm_aligned (data s' ! bj) = bm_aligned (data s ! bj)"
    using f(9) by (simp add: eq)
  show "\<And>a t q. pools s' a = Some t \<Longrightarrow> live_block a t q \<Longrightarrow>
               \<exists>t0. pools s a = Some t0 \<and> live_block a t0 q"
    using f(10) unfolding eq by blast
  show "\<And>a t. pools s' a = Some t \<Longrightarrow> \<not> live_block a t p"
    using f(11) unfolding eq by blast
  show "\<And>tm'. pools s' child = Some tm' \<Longrightarrow> \<exists>tm''. token_manager_s_alloc child tm' = Inr (p, tm'')"
    using f(12) unfolding eq by blast
qed

lemma find_block_manager_Some:
  assumes "find_block_manager n Bs k = Some i"
  shows "k \<le> i \<and> i - k < length Bs \<and> n \<le> Bs ! (i - k) \<and> (\<forall>j<i - k. Bs ! j < n)"
  using assms
proof (induction Bs arbitrary: k)
  case Nil
  then show ?case by simp
next
  case (Cons B Bs)
  show ?case
  proof (cases "n \<le> B")
    case True
    with Cons.prems show ?thesis by simp
  next
    case False
    with Cons.prems have "find_block_manager n Bs (Suc k) = Some i" by simp
    from Cons.IH[OF this] have ih: "Suc k \<le> i" "i - Suc k < length Bs" "n \<le> Bs ! (i - Suc k)"
      "\<forall>j<i - Suc k. Bs ! j < n" by simp_all
    have e: "i - k = Suc (i - Suc k)" using ih(1) by simp
    have "\<forall>j<i - k. (B # Bs) ! j < n"
    proof (intro allI impI)
      fix j assume "j < i - k"
      then show "(B # Bs) ! j < n" using ih(4) False e by (cases j) simp_all
    qed
    with ih e show ?thesis by simp
  qed
qed

lemma find_block_manager_None:
  "find_block_manager n Bs k = None \<longleftrightarrow> (\<forall>B\<in>set Bs. B < n)"
  by (induction Bs arbitrary: k) auto

lemma external_alloc_inv:
  fixes s :: tbman_s
  assumes inv: "tbman_inv s L" and pf: "platform_ok s pf" and n: "0 < n"
    and r: "external_alloc s n pf = Inr (p, g, s')"
  shows "tbman_inv s' (insert p L)" and "p \<notin> L" and "p \<noteq> 0" and "g = n"
    and "s' = s\<lparr>external_btree := (external_btree s)(p \<mapsto> n)\<rparr>"
    and "p \<notin> dom (external_btree s)"
proof -
  from inv have st: "struct_inv s" and part: "\<forall>bi<length (data s). partition_inv (pools s) (data s ! bi)"
    and al: "aligned_inv s" and lv: "live_inv s L" by (simp_all add: tbman_inv_def)
  note sd = struct_invD[OF st]
  from r have p: "p = aligned_malloc pf TBMAN_ALIGN n" and p0: "p \<noteq> 0"
    and pn: "p \<notin> dom (external_btree s)" and g: "g = n"
    and s': "s' = s\<lparr>external_btree := (external_btree s)(p \<mapsto> n)\<rparr>"
    by (auto simp: external_alloc_def Let_def split: if_splits)
  from pf p0 have ok: "p + n \<le> 2 ^ 64"
    "\<And>a. a \<in> dom (pools s) \<Longrightarrow> p + n \<le> a \<or> a + pool_size s \<le> p"
    "\<And>e m. external_btree s e = Some m \<Longrightarrow> p + n \<le> e \<or> e + m \<le> p"
    unfolding platform_ok_def p by blast+
  show "p \<noteq> 0" "g = n" "s' = s\<lparr>external_btree := (external_btree s)(p \<mapsto> n)\<rparr>"
    "p \<notin> dom (external_btree s)" by (rule p0 g s' pn)+
  show "p \<notin> L"
  proof
    assume "p \<in> L"
    with lv have "p \<in> dom (external_btree s) \<or> (\<exists>b t. pools s b = Some t \<and> live_block b t p)"
      by (simp add: live_inv_def)
    with pn obtain b t where b: "pools s b = Some t" "live_block b t p" by blast
    note pb = pool_tm(2,1)[OF st b(1)]
    from live_block_range[OF pb(1) b(2)] pb(2) have rb: "b < p" "p < b + pool_size s" by simp_all
    have "b \<in> dom (pools s)" using b(1) by blast
    from ok(2)[OF this] rb n show False by linarith
  qed
  have st': "struct_inv s'"
    unfolding struct_inv_def
  proof (intro conjI allI impI ballI)
    fix e m assume "external_btree s' e = Some m"
    then have em: "(e = p \<and> m = n) \<or> (e \<noteq> p \<and> external_btree s e = Some m)"
      by (auto simp: s' split: if_splits)
    show "0 < m" using em n sd(11) by blast
    show "e \<noteq> 0" using em p0 sd(11) by blast
    show "e + m \<le> 2 ^ 64" using em ok(1) sd(11) by blast
    fix a assume "a \<in> dom (pools s')"
    then have a: "a \<in> dom (pools s)" by (simp add: s')
    show "e + m \<le> a \<or> a + pool_size s' \<le> e"
      using em ok(2)[OF a] sd(11) a by (auto simp: s')
  qed (use sd in \<open>auto simp: s'\<close>)
  have lv': "live_inv s' (insert p L)"
    using lv unfolding live_inv_def by (auto simp: s')
  have "aligned_inv s'" using al unfolding aligned_inv_def by (simp add: s')
  moreover have "\<forall>bi<length (data s'). partition_inv (pools s') (data s' ! bi)"
    using part by (simp add: s')
  ultimately show "tbman_inv s' (insert p L)" using st' lv' by (simp add: tbman_inv_def)
qed

lemma external_free_inv:
  fixes s :: tbman_s
  assumes inv: "tbman_inv s L" and r: "external_free s p = Inr s'"
  shows "tbman_inv s' (L - {p})"
    and "s' = s\<lparr>external_btree := (external_btree s)(p := None)\<rparr>"
    and "p \<in> dom (external_btree s)"
proof -
  from inv have st: "struct_inv s" and part: "\<forall>bi<length (data s). partition_inv (pools s) (data s ! bi)"
    and al: "aligned_inv s" and lv: "live_inv s L" by (simp_all add: tbman_inv_def)
  note sd = struct_invD[OF st]
  from r show pd: "p \<in> dom (external_btree s)"
    and s': "s' = s\<lparr>external_btree := (external_btree s)(p := None)\<rparr>"
    by (auto simp: external_free_def split: if_splits)
  have st': "struct_inv s'"
    unfolding struct_inv_def
  proof (intro conjI allI impI ballI)
    fix e m assume "external_btree s' e = Some m"
    then have em: "external_btree s e = Some m" by (auto simp: s' split: if_splits)
    show "0 < m" "e \<noteq> 0" "e + m \<le> 2 ^ 64" using sd(11)[OF em] by simp_all
    fix a assume "a \<in> dom (pools s')"
    then have a: "a \<in> dom (pools s)" by (simp add: s')
    show "e + m \<le> a \<or> a + pool_size s' \<le> e" using sd(11)[OF em] a by (simp add: s')
  qed (use sd in \<open>auto simp: s'\<close>)
  have lv': "live_inv s' (L - {p})"
    using lv unfolding live_inv_def by (auto simp: s')
  have "aligned_inv s'" using al unfolding aligned_inv_def by (simp add: s')
  moreover have "\<forall>bi<length (data s'). partition_inv (pools s') (data s' ! bi)"
    using part by (simp add: s')
  ultimately show "tbman_inv s' (L - {p})" using st' lv' by (simp add: tbman_inv_def)
qed

lemma mem_alloc_inv:
  fixes s :: tbman_s
  assumes inv: "tbman_inv s L" and fit: "stack_sizes_fit s" and pf: "platform_ok s pf"
    and n: "0 < n" and r: "tbman_s_mem_alloc s n pf = Inr (p, g, s')"
  shows "tbman_inv s' (insert p L)" and "p \<notin> L" and "p \<noteq> 0"
    and "pool_size s' = pool_size s" and "block_size_array s' = block_size_array s"
    and "max_block_size s' = max_block_size s" and "length (data s') = length (data s)"
    and "\<And>a tm q. pools s a = Some tm \<Longrightarrow> live_block a tm q \<Longrightarrow>
            \<exists>tm'. pools s' a = Some tm' \<and> live_block a tm' q"
    and "\<And>q. q \<noteq> p \<Longrightarrow> external_btree s' q = external_btree s q"
proof -
  from inv have st: "struct_inv s" by (simp add: tbman_inv_def)
  note sd = struct_invD[OF st]
  have big: "tbman_inv s' (insert p L) \<and> p \<notin> L \<and> p \<noteq> 0 \<and>
      pool_size s' = pool_size s \<and> block_size_array s' = block_size_array s \<and>
      max_block_size s' = max_block_size s \<and> length (data s') = length (data s) \<and>
      (\<forall>a tm q. pools s a = Some tm \<longrightarrow> live_block a tm q \<longrightarrow>
            (\<exists>tm'. pools s' a = Some tm' \<and> live_block a tm' q)) \<and>
      (\<forall>q. q \<noteq> p \<longrightarrow> external_btree s' q = external_btree s q)"
  proof (cases "find_block_manager n (block_size_array s) 0")
    case None
    with r have e: "external_alloc s n pf = Inr (p, g, s')" by (simp add: tbman_s_mem_alloc_def)
    note ea = external_alloc_inv[OF inv pf n e]
    show ?thesis using ea(1-3) by (simp add: ea(5))
  next
    case (Some i)
    from find_block_manager_Some[OF Some] have i: "i < length (data s)" using sd(1) by simp
    from r Some obtain s1 where b: "block_manager_s_alloc i pf s = Inr (p, s1)" and s1: "s1 = s'"
      by (auto simp: tbman_s_mem_alloc_def split: sum.splits)
    note ba = block_manager_s_alloc_inv[OF inv fit pf i b]
    from ba(8) obtain a tm where a: "pools s1 a = Some tm" "live_block a tm p" by blast
    from ba(1) have st1: "struct_inv s1" by (simp add: tbman_inv_def)
    from live_block_range(1)[OF pool_tm(2)[OF st1 a(1)] a(2)] have "p \<noteq> 0" by simp
    then show ?thesis
      using ba(1-7) ba(9) unfolding s1 by auto
  qed
  from big show "tbman_inv s' (insert p L)" and "p \<notin> L" and "p \<noteq> 0"
    and "pool_size s' = pool_size s" and "block_size_array s' = block_size_array s"
    and "max_block_size s' = max_block_size s" and "length (data s') = length (data s)"
    by simp_all
  from big show "\<And>a tm q. pools s a = Some tm \<Longrightarrow> live_block a tm q \<Longrightarrow>
            \<exists>tm'. pools s' a = Some tm' \<and> live_block a tm' q" by blast
  from big show "\<And>q. q \<noteq> p \<Longrightarrow> external_btree s' q = external_btree s q" by blast
qed

lemma mem_free_inv:
  fixes s :: tbman_s
  assumes inv: "tbman_inv s L" and p: "p \<in> L" and r: "tbman_s_mem_free s p cs = Inr s'"
  shows "tbman_inv s' (L - {p})"
    and "pool_size s' = pool_size s" and "block_size_array s' = block_size_array s"
    and "max_block_size s' = max_block_size s" and "length (data s') = length (data s)"
proof -
  from inv have st: "struct_inv s" and lv: "live_inv s L" by (simp_all add: tbman_inv_def)
  have "tbman_inv s' (L - {p}) \<and> pool_size s' = pool_size s \<and>
     block_size_array s' = block_size_array s \<and> max_block_size s' = max_block_size s \<and>
     length (data s') = length (data s)"
  proof (cases "fast_path s cs")
    case True
    with r have f: "token_manager_s_free (owner_by_mask s p) p s = Inr s'"
      by (simp add: tbman_s_mem_free_def)
    then obtain tm where tm: "pools s (owner_by_mask s p) = Some tm"
      by (auto simp: token_manager_s_free_def split: option.splits)
    note l = owner_by_mask_live[OF st lv p tm]
    note fi = token_manager_s_free_invD[OF inv tm l f]
    from fi(1,2,3,5,7) show ?thesis by simp
  next
    case False
    show ?thesis
    proof (cases "owner_by_tree s p = 0")
      case o: False
      with r False have f: "token_manager_s_free (owner_by_tree s p) p s = Inr s'"
        by (simp add: tbman_s_mem_free_def)
      from owner_by_tree_live[OF st lv p o] obtain tm where
        tm: "pools s (owner_by_tree s p) = Some tm" "live_block (owner_by_tree s p) tm p" by blast
      note fi = token_manager_s_free_invD[OF inv tm f]
      from fi(1,2,3,5,7) show ?thesis by simp
    next
      case True
      with r False have f: "external_free s p = Inr s'" by (simp add: tbman_s_mem_free_def)
      note ef = external_free_inv[OF inv f]
      from ef(1) show ?thesis by (simp add: ef(2))
    qed
  qed
  then show "tbman_inv s' (L - {p})"
    and "pool_size s' = pool_size s" and "block_size_array s' = block_size_array s"
    and "max_block_size s' = max_block_size s" and "length (data s') = length (data s)"
    by simp_all
qed

lemma grow_frame:
  assumes "block_manager_s_grow bi pf s = Inr s'"
  shows "pool_size s' = pool_size s \<and> block_size_array s' = block_size_array s \<and>
         max_block_size s' = max_block_size s"
  using assms
  by (auto simp: block_manager_s_grow_def Let_def split: sum.splits prod.splits if_splits)

lemma block_manager_s_alloc_frame:
  assumes "block_manager_s_alloc bi pf s = Inr (p, s')"
  shows "pool_size s' = pool_size s \<and> block_size_array s' = block_size_array s \<and>
         max_block_size s' = max_block_size s"
proof -
  from assms obtain s1 where
    g: "(if free_index (data s ! bi) = length (bm_data (data s ! bi))
      then block_manager_s_grow bi pf s else Inr s) = Inr s1"
    and s': "pool_size s' = pool_size s1 \<and> block_size_array s' = block_size_array s1 \<and>
         max_block_size s' = max_block_size s1"
    by (auto simp: block_manager_s_alloc_def Let_def
        split: sum.splits prod.splits if_splits option.splits)
  from g have "pool_size s1 = pool_size s \<and> block_size_array s1 = block_size_array s \<and>
         max_block_size s1 = max_block_size s"
    using grow_frame by (auto split: if_splits)
  with s' show ?thesis by simp
qed

lemma full_to_free_frame:
  assumes "block_manager_s_full_to_free bi child s = Inr s'"
  shows "pool_size s' = pool_size s \<and> block_size_array s' = block_size_array s \<and>
         max_block_size s' = max_block_size s"
  using assms
  by (auto simp: block_manager_s_full_to_free_def Let_def split: option.splits if_splits)

lemma free_to_empty_move_frame:
  assumes "free_to_empty_move bi child s = Inr (et, s')"
  shows "pool_size s' = pool_size s \<and> block_size_array s' = block_size_array s \<and>
         max_block_size s' = max_block_size s"
  using assms
  by (auto simp: free_to_empty_move_def Let_def split: option.splits if_splits sum.splits)

lemma free_to_empty_frame:
  assumes "block_manager_s_free_to_empty bi child s = Inr s'"
  shows "pool_size s' = pool_size s \<and> block_size_array s' = block_size_array s \<and>
         max_block_size s' = max_block_size s"
proof -
  from assms obtain et s1 where m: "free_to_empty_move bi child s = Inr (et, s1)"
    and s': "pool_size s' = pool_size s1 \<and> block_size_array s' = block_size_array s1 \<and>
         max_block_size s' = max_block_size s1"
    by (auto simp: block_manager_s_free_to_empty_def Let_def
        split: sum.splits prod.splits if_splits)
  from free_to_empty_move_frame[OF m] s' show ?thesis by simp
qed

lemma token_manager_s_free_frame:
  assumes "token_manager_s_free child p s = Inr s'"
  shows "pool_size s' = pool_size s \<and> block_size_array s' = block_size_array s \<and>
         max_block_size s' = max_block_size s"
  using assms
  by (auto simp: token_manager_s_free_def Let_def split: option.splits if_splits sum.splits
      dest!: full_to_free_frame free_to_empty_frame)

lemma external_alloc_frame:
  assumes "external_alloc s n pf = Inr (p, g, s')"
  shows "pool_size s' = pool_size s \<and> block_size_array s' = block_size_array s \<and>
         max_block_size s' = max_block_size s"
  using assms by (auto simp: external_alloc_def Let_def split: if_splits)

lemma external_free_frame:
  assumes "external_free s p = Inr s'"
  shows "pool_size s' = pool_size s \<and> block_size_array s' = block_size_array s \<and>
         max_block_size s' = max_block_size s"
  using assms by (auto simp: external_free_def split: if_splits)

lemma mem_alloc_frame:
  assumes "tbman_s_mem_alloc s n pf = Inr (p, g, s')"
  shows "pool_size s' = pool_size s \<and> block_size_array s' = block_size_array s \<and>
         max_block_size s' = max_block_size s"
  using assms external_alloc_frame block_manager_s_alloc_frame
  by (auto simp: tbman_s_mem_alloc_def split: option.splits sum.splits prod.splits)

lemma mem_free_frame:
  assumes "tbman_s_mem_free s p cs = Inr s'"
  shows "pool_size s' = pool_size s \<and> block_size_array s' = block_size_array s \<and>
         max_block_size s' = max_block_size s"
  using assms external_free_frame token_manager_s_free_frame
  by (auto simp: tbman_s_mem_free_def split: if_splits)

lemma mem_realloc_frame:
  assumes "tbman_s_mem_realloc s cp cs n pf = Inr (p, g, s')"
  shows "pool_size s' = pool_size s \<and> block_size_array s' = block_size_array s \<and>
         max_block_size s' = max_block_size s"
proof -
  define tmgr where "tmgr = (if fast_path s cs then owner_by_mask s cp else owner_by_tree s cp)"
  note r = assms[unfolded tbman_s_mem_realloc_def Let_def, folded tmgr_def]
  show ?thesis
    using r
    by (auto split: if_splits option.splits sum.splits prod.splits
        dest!: mem_alloc_frame block_manager_s_alloc_frame external_alloc_frame
          token_manager_s_free_frame external_free_frame)
qed

lemma tbman_s_alloc_frame:
  assumes "tbman_s_alloc s cp n pf = Inr (p, g, s')"
  shows "pool_size s' = pool_size s \<and> block_size_array s' = block_size_array s \<and>
         max_block_size s' = max_block_size s"
  using assms mem_alloc_frame mem_free_frame mem_realloc_frame
  by (auto simp: tbman_s_alloc_def split: if_splits sum.splits)

lemma tbman_s_nalloc_frame:
  assumes "tbman_s_nalloc s cp cs n pf = Inr (p, g, s')"
  shows "pool_size s' = pool_size s \<and> block_size_array s' = block_size_array s \<and>
         max_block_size s' = max_block_size s"
  using assms mem_alloc_frame mem_free_frame mem_realloc_frame
  by (auto simp: tbman_s_nalloc_def split: if_splits sum.splits)

lemma mem_realloc_inv:
  fixes s :: tbman_s
  assumes inv: "tbman_inv s L" and fit: "stack_sizes_fit s" and pf: "platform_ok s pf"
    and cp: "cp \<in> L" and n: "0 < n"
    and r: "tbman_s_mem_realloc s cp cs n pf = Inr (p, g, s')"
  shows "tbman_inv s' (insert p (L - {cp}))" and "p \<noteq> 0"
proof -
  from inv have st: "struct_inv s" and lv: "live_inv s L" by (simp_all add: tbman_inv_def)
  note sd = struct_invD[OF st]
  define tmgr where "tmgr = (if fast_path s cs then owner_by_mask s cp else owner_by_tree s cp)"
  note r' = r[unfolded tbman_s_mem_realloc_def Let_def, folded tmgr_def]
  have cp0: "cp \<noteq> 0" using live_range(1)[OF st lv cp] by simp
  have own: "live_block tmgr tm cp" if "tmgr \<noteq> 0" "pools s tmgr = Some tm" for tm
  proof (cases "fast_path s cs")
    case True
    with that show ?thesis using owner_by_mask_live[OF st lv cp] by (simp add: tmgr_def)
  next
    case False
    with that owner_by_tree_live[OF st lv cp] show ?thesis by (auto simp: tmgr_def)
  qed
  have step_tm: "tbman_inv s2 (insert rp (L - {cp})) \<and> rp \<noteq> 0"
    if i1: "tbman_inv s1 (insert rp L)" and nl: "rp \<notin> L"
      and keep: "\<And>a tm q. pools s a = Some tm \<Longrightarrow> live_block a tm q \<Longrightarrow>
            \<exists>tm'. pools s1 a = Some tm' \<and> live_block a tm' q"
      and tm: "pools s tmgr = Some tm" and t0: "tmgr \<noteq> 0"
      and f: "token_manager_s_free tmgr cp s1 = Inr s2" for rp s1 s2 tm
  proof -
    from keep[OF tm own[OF t0 tm]] obtain tm' where
      tm': "pools s1 tmgr = Some tm'" "live_block tmgr tm' cp" by blast
    note fi = token_manager_s_free_invD[OF i1 tm' f]
    have "rp \<noteq> cp" using nl cp by blast
    then have e: "insert rp L - {cp} = insert rp (L - {cp})" by blast
    from i1 have "struct_inv s1" "live_inv s1 (insert rp L)" by (simp_all add: tbman_inv_def)
    from live_range(1)[OF this, of rp] have "rp \<noteq> 0" by simp
    with fi(1) e show ?thesis by simp
  qed
  have step_ext: "tbman_inv s2 (insert rp (L - {cp})) \<and> rp \<noteq> 0"
    if i1: "tbman_inv s1 (insert rp L)" and nl: "rp \<notin> L"
      and f: "external_free s1 cp = Inr s2" for rp s1 s2
  proof -
    note ef = external_free_inv[OF i1 f]
    have "rp \<noteq> cp" using nl cp by blast
    then have e: "insert rp L - {cp} = insert rp (L - {cp})" by blast
    from i1 have "struct_inv s1" "live_inv s1 (insert rp L)" by (simp_all add: tbman_inv_def)
    from live_range(1)[OF this, of rp] have "rp \<noteq> 0" by simp
    with ef(1) e show ?thesis by simp
  qed
  have same: "insert cp (L - {cp}) = L" using cp by blast
  have "tbman_inv s' (insert p (L - {cp})) \<and> p \<noteq> 0"
  proof (cases "tmgr \<noteq> 0")
    case t0: True
    with r' obtain tm where tm: "pools s tmgr = Some tm" by (auto split: option.splits)
    show ?thesis
    proof (cases "n > tm_block_size tm")
      case True
      with r' t0 tm obtain s1 where a: "tbman_s_mem_alloc s n pf = Inr (p, g, s1)"
        and f: "token_manager_s_free tmgr cp s1 = Inr s'"
        by (auto split: sum.splits)
      note ma = mem_alloc_inv[OF inv fit pf n a]
      from step_tm[OF ma(1,2) ma(8) tm _ f] t0 show ?thesis by simp
    next
      case False
      with r' t0 tm obtain i where i: "find_block_manager n (block_size_array s) 0 = Some i"
        "i < length (data s)"
        by (auto split: option.splits if_splits)
      show ?thesis
      proof (cases "bm_block_size (data s ! i) \<noteq> tm_block_size tm")
        case True
        with r' t0 tm False i obtain s1 where a: "block_manager_s_alloc i pf s = Inr (p, s1)"
          and f: "token_manager_s_free tmgr cp s1 = Inr s'"
          by (auto split: sum.splits)
        note ba = block_manager_s_alloc_inv[OF inv fit pf i(2) a]
        have i1: "tbman_inv s1 (insert p L)" using ba(1) by simp
        from step_tm[OF i1 ba(2) ba(9) tm _ f] t0 show ?thesis by simp
      next
        case same_class: False
        with r' t0 tm False i have "p = cp" "s' = s" by auto
        with inv same cp0 show ?thesis by simp
      qed
    qed
  next
    case t0: False
    show ?thesis
    proof (cases "n \<le> max_block_size s")
      case True
      with r' t0 obtain s1 where a: "tbman_s_mem_alloc s n pf = Inr (p, g, s1)"
        and f: "external_free s1 cp = Inr s'"
        by (auto split: sum.splits)
      note ma = mem_alloc_inv[OF inv fit pf n a]
      from step_ext[OF ma(1,2) f] show ?thesis .
    next
      case False
      with r' t0 obtain ceb where ceb: "external_btree s cp = Some ceb"
        by (auto split: option.splits)
      show ?thesis
      proof (cases "n < ceb \<and> n \<ge> ceb div 2")
        case True
        with r' t0 False ceb have "p = cp" "s' = s" by auto
        with inv same cp0 show ?thesis by simp
      next
        case keep: False
        with r' t0 False ceb obtain s1 where a: "external_alloc s n pf = Inr (p, g, s1)"
          and f: "external_free s1 cp = Inr s'"
          by (auto split: sum.splits)
        note ea = external_alloc_inv[OF inv pf n a]
        from step_ext[OF ea(1,2) f] show ?thesis .
      qed
    qed
  qed
  then show "tbman_inv s' (insert p (L - {cp}))" and "p \<noteq> 0" by simp_all
qed

lemma live_no_null:
  assumes "tbman_inv s L"
  shows "0 \<notin> L"
proof
  assume "0 \<in> L"
  from assms have "struct_inv s" "live_inv s L" by (simp_all add: tbman_inv_def)
  from live_range(1)[OF this \<open>0 \<in> L\<close>] show False by simp
qed

lemma tbman_s_alloc_inv:
  fixes s :: tbman_s
  assumes inv: "tbman_inv s L" and fit: "stack_sizes_fit s" and pf: "platform_ok s pf"
    and cp: "cp = 0 \<or> cp \<in> L"
    and r: "tbman_s_alloc s cp n pf = Inr (p, g, s')"
  shows "tbman_inv s' ((L - {cp}) \<union> (if p = 0 then {} else {p}))"
proof -
  note nn = live_no_null[OF inv]
  show ?thesis
  proof (cases "n = 0")
    case n0: True
    show ?thesis
    proof (cases "cp = 0")
      case True
      with r n0 have "p = 0" "s' = s" by (simp_all add: tbman_s_alloc_def)
      with inv True nn show ?thesis by simp
    next
      case False
      with cp have cpl: "cp \<in> L" by simp
      from r n0 False have f: "tbman_s_mem_free s cp None = Inr s'" and "p = 0"
        by (auto simp: tbman_s_alloc_def split: sum.splits)
      from mem_free_inv(1)[OF inv cpl f] \<open>p = 0\<close> show ?thesis by simp
    qed
  next
    case n0: False
    then have n: "0 < n" by simp
    show ?thesis
    proof (cases "cp = 0")
      case True
      with r n0 have a: "tbman_s_mem_alloc s n pf = Inr (p, g, s')" by (simp add: tbman_s_alloc_def)
      note ma = mem_alloc_inv[OF inv fit pf n a]
      from ma(1,3) True nn show ?thesis by simp
    next
      case False
      with cp have cpl: "cp \<in> L" by simp
      from r n0 False have a: "tbman_s_mem_realloc s cp None n pf = Inr (p, g, s')"
        by (simp add: tbman_s_alloc_def)
      note mr = mem_realloc_inv[OF inv fit pf cpl n a]
      have "(L - {cp}) \<union> {p} = insert p (L - {cp})" by blast
      with mr show ?thesis by simp
    qed
  qed
qed

lemma tbman_s_nalloc_inv:
  fixes s :: tbman_s
  assumes inv: "tbman_inv s L" and fit: "stack_sizes_fit s" and pf: "platform_ok s pf"
    and cp: "c = 0 \<or> cp \<in> L"
    and r: "tbman_s_nalloc s cp c n pf = Inr (p, g, s')"
  shows "tbman_inv s' ((if c = 0 then L else L - {cp}) \<union> (if p = 0 then {} else {p}))"
proof (cases "n = 0")
  case n0: True
  show ?thesis
  proof (cases "c = 0")
    case True
    with r n0 have "p = 0" "s' = s" by (simp_all add: tbman_s_nalloc_def)
    with inv True show ?thesis by simp
  next
    case False
    with cp have cpl: "cp \<in> L" by simp
    from r n0 False have f: "tbman_s_mem_free s cp (Some c) = Inr s'" and "p = 0"
      by (auto simp: tbman_s_nalloc_def split: sum.splits)
    from mem_free_inv(1)[OF inv cpl f] \<open>p = 0\<close> False show ?thesis by simp
  qed
next
  case n0: False
  then have n: "0 < n" by simp
  show ?thesis
  proof (cases "c = 0")
    case True
    with r n0 have a: "tbman_s_mem_alloc s n pf = Inr (p, g, s')" by (simp add: tbman_s_nalloc_def)
    note ma = mem_alloc_inv[OF inv fit pf n a]
    from ma(1,3) True show ?thesis by simp
  next
    case False
    with cp have cpl: "cp \<in> L" by simp
    from r n0 False have a: "tbman_s_mem_realloc s cp (Some c) n pf = Inr (p, g, s')"
      by (simp add: tbman_s_nalloc_def)
    note mr = mem_realloc_inv[OF inv fit pf cpl n a]
    have "(L - {cp}) \<union> {p} = insert p (L - {cp})" by blast
    with mr False show ?thesis by simp
  qed
qed

lemma reach_frame:
  assumes "reach s L"
  shows "\<exists>P min_B max_B m al s0. tbman_s_init P min_B max_B m al = Inr s0 \<and>
           pool_size s = pool_size s0 \<and> block_size_array s = block_size_array s0 \<and>
           max_block_size s = max_block_size s0"
  using assms
proof (induction rule: reach.induct)
  case (reach_init P min_B max_B stepping_method full_align s)
  then show ?case by blast
next
  case (reach_alloc s L pf current_ptr requested_size p g s')
  from tbman_s_alloc_frame[OF reach_alloc.hyps(4)] reach_alloc.IH show ?case by auto
next
  case (reach_nalloc s L pf current_size current_ptr requested_size p g s')
  from tbman_s_nalloc_frame[OF reach_nalloc.hyps(4)] reach_nalloc.IH show ?case by auto
qed

lemma reach_inv:
  assumes "reach s L" "stack_sizes_fit s"
  shows "tbman_inv s L"
  using assms
proof (induction rule: reach.induct)
  case (reach_init P min_B max_B stepping_method full_align s)
  then show ?case by (simp add: tbman_s_init_inv)
next
  case (reach_alloc s L pf current_ptr requested_size p g s')
  from tbman_s_alloc_frame[OF reach_alloc.hyps(4)] reach_alloc.prems
  have fit: "stack_sizes_fit s" by (simp add: stack_sizes_fit_def)
  from tbman_s_alloc_inv[OF reach_alloc.IH[OF fit] fit reach_alloc.hyps(2,3,4)]
  show ?case .
next
  case (reach_nalloc s L pf current_size current_ptr requested_size p g s')
  from tbman_s_nalloc_frame[OF reach_nalloc.hyps(4)] reach_nalloc.prems
  have fit: "stack_sizes_fit s" by (simp add: stack_sizes_fit_def)
  from tbman_s_nalloc_inv[OF reach_nalloc.IH[OF fit] fit reach_nalloc.hyps(2,3,4)]
  show ?case .
qed
section \<open>The example runs\<close>

lemma map_upd_eq_iff: "(m(a \<mapsto> x) = m(a \<mapsto> y)) \<longleftrightarrow> x = y"
  by (metis map_upd_eqD1)

lemma ex_ladder: "block_size_ladder 128 128 (Suc 0) = Inr [128]"
  by (simp add: block_size_ladder_def initial_size_mask_def size_mask_loop.simps
      block_size_loop.simps size_t_def)

lemma ex_reserved: "reserved_blocks 512 128 = Suc 0"
  by (simp add: reserved_blocks_def sizeof_token_manager_s_def)

lemma ex_init: "tbman_s_init 512 128 128 1 False = Inr ex_init"
  by (simp add: tbman_s_init_def ex_ladder block_manager_s_create_def ex_init_def ex_state_def
      ex_bm_def)

lemma ex_create_768:
  "token_manager_s_create 512 128 False (example_platform 768)
     = Inr (768, (ex_tm False 0)\<lparr>parent := None\<rparr>)"
  by (simp add: token_manager_s_create_def ex_reserved uint16_t_def example_platform_def
      TBMAN_ALIGN_def ex_tm_def fun_eq_iff)


lemma ex_alloc_first:
  "tbman_s_alloc ex_init 0 128 (example_platform 768) = Inr (896, 128, ex_pool 768 1)"
  by (simp add: tbman_s_alloc_def tbman_s_mem_alloc_def block_manager_s_alloc_def
      block_manager_s_grow_def ex_create_768 ex_init_def ex_pool_def ex_state_def ex_bm_def
      ex_tm_def uint16_t_def token_manager_s_alloc_def token_manager_s_is_full_def
      sizeof_token_manager_s_def Let_def)


lemma ex_alloc_second:
  "tbman_s_alloc (ex_pool 768 1) 0 128 no_platform = Inr (1024, 128, ex_pool 768 2)"
  by (simp add: tbman_s_alloc_def tbman_s_mem_alloc_def block_manager_s_alloc_def
      ex_pool_def ex_state_def ex_bm_def
      ex_tm_def uint16_t_def token_manager_s_alloc_def token_manager_s_is_full_def
      sizeof_token_manager_s_def Let_def map_upd_eq_iff numeral_2_eq_2[symmetric])




lemma ex_fit:
  "stack_sizes_fit ex_init" "stack_sizes_fit (ex_pool a k)" "stack_sizes_fit ex_swept"
  "stack_sizes_fit (ex_external p n)"
  by (simp_all add: stack_sizes_fit_def ex_init_def ex_pool_def ex_swept_def ex_external_def
      ex_state_def)

lemma no_platform_ok: "platform_ok s no_platform"
  by (simp add: platform_ok_def no_platform_def)

lemma ex_platform_ok_init: "a \<le> 2 ^ 32 \<Longrightarrow> platform_ok ex_init (example_platform a)"
  by (simp add: platform_ok_def example_platform_def ex_init_def ex_state_def)

lemma ex_platform_ok_external:
  "platform_ok (ex_external 4096 300) (example_platform 8192)"
  by (simp add: platform_ok_def example_platform_def ex_external_def ex_state_def)

lemma ex_reach_init: "reach ex_init {}"
  using ex_init by (rule reach_init)

lemma ex_reach_one: "reach (ex_pool 768 1) {896}"
  using reach_alloc[OF ex_reach_init ex_platform_ok_init _ ex_alloc_first] by simp


lemma ex_reach_two: "reach (ex_pool 768 2) {896, 1024}"
  using reach_alloc[OF ex_reach_one no_platform_ok _ ex_alloc_second]
  by (simp add: insert_commute)


lemma ex_inv_two: "tbman_inv (ex_pool 768 2) {896, 1024}"
  by (rule reach_inv[OF ex_reach_two ex_fit(2)])





lemma ex_external_alloc:
  "tbman_s_alloc ex_init 0 300 (example_platform 4096) = Inr (4096, 300, ex_external 4096 300)"
  by (simp add: tbman_s_alloc_def tbman_s_mem_alloc_def external_alloc_def example_platform_def
      TBMAN_ALIGN_def ex_init_def ex_external_def ex_state_def Let_def)

lemma ex_external_realloc:
  "tbman_s_alloc (ex_external 4096 300) 4096 300 (example_platform 8192)
     = Inr (8192, 300, ex_external 8192 300)"
  by (simp add: tbman_s_alloc_def tbman_s_mem_realloc_def fast_path_def owner_by_tree_def
      btree_vd_s_largest_below_equal_def external_alloc_def external_free_def
      example_platform_def TBMAN_ALIGN_def ex_external_def ex_state_def Let_def fun_eq_iff)

lemma ex_reach_external: "reach (ex_external 4096 300) {4096}"
  using reach_alloc[OF ex_reach_init ex_platform_ok_init _ ex_external_alloc] by simp
section \<open>More facts about freeing a block\<close>




section \<open>The partition, the alignment flags and the reuse of a freed block\<close>









end
